theory Spec2Isabelle
  imports Main
begin

text \<open>
  The repository holds two variants of the request context. context.go has a struct \<open>Context\<close>
  with exported fields, whose \<open>Next\<close> also ends the chain after a handler wrote to the response;
  router.go dispatches to it. The other variant puts the context behind an interface, with
  \<open>SetResult\<close>, \<open>SetPagination\<close> and a helper \<open>do\<close>. Functions of the first are named
  \<open>Context_\<close>\<dots>, functions of the second \<open>context_\<close>\<dots>, as their receivers are. Both are modelled
  over one record of the context's state.
\<close>

section \<open>Values, JSON documents and the error model (error.go)\<close>

text \<open>
  A Go value of type \<open>interface{}\<close> that a handler hands to the framework (a result, the
  \<open>Data\<close> of a field error) is modelled by \<open>dyn\<close>. \<open>DFunc\<close> stands for a value of a
  kind that \<open>encoding/json\<close> rejects with an \<open>UnsupportedTypeError\<close> (a func, a channel, a
  complex number). A JSON text is modelled by its document tree \<open>json\<close>; the order of the
  members of an object is the order in which \<open>encoding/json\<close> emits the fields of a struct.
  A string is a sequence of bytes, as a Go string is.
\<close>

datatype dyn = DNull | DBool bool | DInt int | DString string | DArray "dyn list" | DFunc

datatype json = JNull | JBool bool | JNumber int | JString string | JArray "json list"
  | JObject "(string \<times> json) list"

subsection \<open>Strings in JSON\<close>

text \<open>
  \<open>encoding/json\<close> walks a string with \<open>utf8.DecodeRuneInString\<close> and writes the replacement
  character U+FFFD (the bytes EF BF BD) for every byte at which no valid UTF-8 sequence starts.
  \<open>utf8_size\<close> is the length of the valid sequence at the head of a string, \<open>0\<close> when there is
  none: the lead byte selects the length and the range of the second byte, the other bytes
  are continuation bytes. \<open>json_string\<close> is the string value that the JSON text denotes. (The
  escapes that the encoder writes for quotes, control characters and the characters of HTML
  markup are spellings of the same value.)
\<close>

definition byte_in :: "nat \<Rightarrow> nat \<Rightarrow> char \<Rightarrow> bool" where
  "byte_in lo hi b = (lo \<le> of_char b \<and> (of_char b :: nat) \<le> hi)"

fun utf8_size :: "string \<Rightarrow> nat" where
  "utf8_size [] = 0"
| "utf8_size (b0 # rest) =
     (let x = (of_char b0 :: nat)
      in if x < 0x80 then 1
         else if 0xC2 \<le> x \<and> x \<le> 0xDF then
           (case rest of
              b1 # _ \<Rightarrow> if byte_in 0x80 0xBF b1 then 2 else 0
            | _ \<Rightarrow> 0)
         else if 0xE0 \<le> x \<and> x \<le> 0xEF then
           (case rest of
              b1 # b2 # _ \<Rightarrow>
                if byte_in (if x = 0xE0 then 0xA0 else 0x80) (if x = 0xED then 0x9F else 0xBF) b1
                   \<and> byte_in 0x80 0xBF b2
                then 3 else 0
            | _ \<Rightarrow> 0)
         else if 0xF0 \<le> x \<and> x \<le> 0xF4 then
           (case rest of
              b1 # b2 # b3 # _ \<Rightarrow>
                if byte_in (if x = 0xF0 then 0x90 else 0x80) (if x = 0xF4 then 0x8F else 0xBF) b1
                   \<and> byte_in 0x80 0xBF b2 \<and> byte_in 0x80 0xBF b3
                then 4 else 0
            | _ \<Rightarrow> 0)
         else 0)"

function json_string :: "string \<Rightarrow> string" where
  "json_string [] = []"
| "json_string (b0 # rest) =
     (let n = utf8_size (b0 # rest)
      in if n = 0 then [CHR 0xEF, CHR 0xBF, CHR 0xBD] @ json_string rest
         else take n (b0 # rest) @ json_string (drop n (b0 # rest)))"
  by pat_completeness auto
termination
  by (relation "measure length") auto

declare json_string.simps [simp del]

text \<open>\<open>encoding/json.Marshal\<close> on a \<open>dyn\<close>: \<open>Inl\<close> is the returned error's text.\<close>

fun marshal_dyn :: "dyn \<Rightarrow> string + json"
  and marshal_dyns :: "dyn list \<Rightarrow> string + json list" where
  "marshal_dyn DNull = Inr JNull"
| "marshal_dyn (DBool b) = Inr (JBool b)"
| "marshal_dyn (DInt i) = Inr (JNumber i)"
| "marshal_dyn (DString s) = Inr (JString (json_string s))"
| "marshal_dyn (DArray xs) = (case marshal_dyns xs of Inl e \<Rightarrow> Inl e | Inr js \<Rightarrow> Inr (JArray js))"
| "marshal_dyn DFunc = Inl ''json: unsupported type: func()''"
| "marshal_dyns [] = Inr []"
| "marshal_dyns (x # xs) =
     (case marshal_dyn x of Inl e \<Rightarrow> Inl e
      | Inr j \<Rightarrow> (case marshal_dyns xs of Inl e \<Rightarrow> Inl e | Inr js \<Rightarrow> Inr (j # js)))"

definition StatusValidationError :: int where "StatusValidationError = 422"
definition StatusOK :: int where "StatusOK = 200"
definition StatusNotFound :: int where "StatusNotFound = 404"
definition StatusInternalServerError :: int where "StatusInternalServerError = 500"

text \<open>\<open>type Error struct\<close>: a status code and a message (\<open>json:"message,omitempty"\<close>).\<close>

record Error =
  StatusCode :: int
  Message :: string

definition NewError :: "int \<Rightarrow> string \<Rightarrow> Error" where
  "NewError statusCode message = \<lparr>StatusCode = statusCode, Message = message\<rparr>"

definition ErrNotFound :: Error where
  "ErrNotFound = NewError StatusNotFound ''''"

text \<open>\<open>type FieldError struct\<close>; \<open>Data\<close> is an \<open>interface{}\<close>, \<open>None\<close> the nil interface.\<close>

record FieldError =
  FieldName :: string
  ErrorCode :: string
  FieldMessage :: string
  Data :: "dyn option"

text \<open>
  \<open>type ValidationError struct\<close>: \<open>Errors\<close> is a \<open>[]*FieldError\<close>. The outer \<open>None\<close> is the nil
  slice (as in \<open>&ValidationError{}\<close>), an element \<open>None\<close> a nil pointer. \<open>AddErrorDetailed\<close>
  takes the message that \<open>fmt.Sprintf(hint, hintArgs...)\<close> gives.
\<close>

datatype ValidationError = ValidationError (Errors: "FieldError option list option")

definition NewValidationError :: ValidationError where
  "NewValidationError = ValidationError (Some [])"

definition AddErrorDetailed ::
  "ValidationError \<Rightarrow> string \<Rightarrow> string \<Rightarrow> dyn option \<Rightarrow> string \<Rightarrow> ValidationError" where
  "AddErrorDetailed this key errorCode data message =
     (let e = \<lparr>FieldName = key, ErrorCode = errorCode, FieldMessage = message, Data = data\<rparr>
      in ValidationError (Some ((case Errors this of None \<Rightarrow> [] | Some es \<Rightarrow> es) @ [Some e])))"

definition AddError :: "ValidationError \<Rightarrow> string \<Rightarrow> string \<Rightarrow> ValidationError" where
  "AddError this key errorCode = AddErrorDetailed this key errorCode None ''''"

definition HasErrors :: "ValidationError \<Rightarrow> bool" where
  "HasErrors this = (case Errors this of None \<Rightarrow> False | Some es \<Rightarrow> length es > 0)"

text \<open>
  The values of Go's \<open>error\<close> interface that the engine distinguishes: a
  \<open>*ValidationError\<close>, an \<open>*Error\<close>, the slice of recorded errors (\<open>Errors\<close> in context.go,
  \<open>ErrorSlice\<close> in the interface variant), and any other error, given by its message.
\<close>

datatype err = ErrValidation ValidationError | ErrAPI Error | ErrOther string
  | ErrSlice "err list"

subsection \<open>Decimal formatting (\<open>fmt.Sprintf("%d", n)\<close>)\<close>

definition digit_char :: "nat \<Rightarrow> char" where
  "digit_char d = ''0123456789'' ! d"

fun digits :: "nat \<Rightarrow> string" where
  "digits n = (if n < 10 then [digit_char n] else digits (n div 10) @ [digit_char (n mod 10)])"

declare digits.simps [simp del]

definition Sprintf_d :: "int \<Rightarrow> string" where
  "Sprintf_d i = (if i < 0 then CHR ''-'' # digits (nat (- i)) else digits (nat i))"

subsection \<open>The \<open>Error()\<close> methods\<close>

text \<open>
  \<open>Errors_loop\<close> is the \<open>for i, err := range this\<close> loop of \<open>Errors.Error\<close>, with the
  buffer as accumulator; \<open>ErrorSlice.Error\<close> of the interface variant has the same text.
\<close>

fun err_Error :: "err \<Rightarrow> string"
  and Errors_Error :: "err list \<Rightarrow> string"
  and Errors_loop :: "nat \<Rightarrow> err list \<Rightarrow> string \<Rightarrow> string" where
  "err_Error (ErrValidation v) = ''Validation error''"
| "err_Error (ErrAPI e) = ''API Error ('' @ Sprintf_d (StatusCode e) @ ''): '' @ Message e"
| "err_Error (ErrOther s) = s"
| "err_Error (ErrSlice es) = Errors_Error es"
| "Errors_Error [] = ''(no errors)''"
| "Errors_Error [e] = err_Error e"
| "Errors_Error (e # e' # es) =
     Errors_loop 0 (e # e' # es) (''Multiple handlers returned error:'' @ [CHR 0x0A])"
| "Errors_loop i [] buf = buf"
| "Errors_loop i (e # es) buf =
     Errors_loop (i + 1) es
       (buf @ (''Error #'' @ Sprintf_d (int (i + 1)) @ [CHR 0x0A]) @ err_Error e @ [CHR 0x0A])"

definition ErrorSlice_Error :: "err list \<Rightarrow> string" where
  "ErrorSlice_Error this = Errors_Error this"

section \<open>Param accessor\<close>

text \<open>
  \<open>httprouter.Params\<close> is a slice of key/value pairs and \<open>ByName\<close> returns the value of the
  first pair with the key, or the empty string. \<open>url.Values\<close> maps a key to a list of values
  and \<open>Get\<close> returns the first of them, or the empty string. Both belong to libraries and are
  modelled from their documentation.
\<close>

fun ByName :: "(string \<times> string) list \<Rightarrow> string \<Rightarrow> string" where
  "ByName [] name = ''''"
| "ByName ((k, v) # ps) name = (if k = name then v else ByName ps name)"

definition Values_Get :: "(string \<rightharpoonup> string list) \<Rightarrow> string \<Rightarrow> string" where
  "Values_Get q key = (case q key of None \<Rightarrow> '''' | Some [] \<Rightarrow> '''' | Some (v # vs) \<Rightarrow> v)"

record Request =
  Method :: string
  Query :: "string \<rightharpoonup> string list"

record Params =
  params_r :: Request
  params_p :: "(string \<times> string) list"

definition Params_Get :: "Params \<Rightarrow> string \<Rightarrow> string" where
  "Params_Get this key =
     (let val = ByName (params_p this) key
      in if val \<noteq> '''' then val else Values_Get (Query (params_r this)) key)"

section \<open>Response writer guard\<close>

text \<open>
  The underlying \<open>http.ResponseWriter\<close> is modelled by its header map and by \<open>wire\<close>, the
  sequence of \<open>WriteHeader\<close> and \<open>Write\<close> calls that reached it. A handler writes raw bytes
  (\<open>Raw\<close>); the resolution policy writes the bytes of a marshalled JSON document (\<open>Doc\<close>).
  Header keys are taken as already canonical.
\<close>

datatype payload = Raw string | Doc json

datatype wire = WroteHeader int | WroteBody payload

record ResponseWriter =
  header :: "string \<rightharpoonup> string"
  wire :: "wire list"

record responseWriter =
  rw_w :: ResponseWriter
  written :: bool

definition rw_Header_Set :: "string \<Rightarrow> string \<Rightarrow> responseWriter \<Rightarrow> responseWriter" where
  "rw_Header_Set k v this = this\<lparr>rw_w := (rw_w this)\<lparr>header := (header (rw_w this))(k \<mapsto> v)\<rparr>\<rparr>"

definition rw_Write :: "payload \<Rightarrow> responseWriter \<Rightarrow> responseWriter" where
  "rw_Write b this =
     this\<lparr>written := True, rw_w := (rw_w this)\<lparr>wire := wire (rw_w this) @ [WroteBody b]\<rparr>\<rparr>"

definition rw_WriteHeader :: "int \<Rightarrow> responseWriter \<Rightarrow> responseWriter" where
  "rw_WriteHeader statusCode this =
     this\<lparr>written := True,
          rw_w := (rw_w this)\<lparr>wire := wire (rw_w this) @ [WroteHeader statusCode]\<rparr>\<rparr>"

section \<open>Results and their JSON form\<close>

text \<open>
  The context's result is an \<open>interface{}\<close>: a value set by a handler (\<open>RDyn\<close>), the
  \<open>*Error\<close> that \<open>respond\<close> stores (\<open>RError\<close>), or the anonymous struct that \<open>respond\<close>
  builds for a validation error (\<open>RValidation\<close>: StatusCode, ErrorCode, Message, Errors).
  \<open>json_Marshal\<close> follows the \<open>json\<close> tags of these structs: \<open>message\<close> and \<open>data\<close> of a
  field error and \<open>message\<close> of an \<open>Error\<close> are left out when empty; \<open>errors\<close> of the structure
  has no \<open>omitempty\<close>, so a nil slice is written as \<open>null\<close>, as a nil pointer in the slice is.
\<close>

datatype result = RDyn dyn | RError Error
  | RValidation int string string "FieldError option list option"

definition marshal_FieldError :: "FieldError \<Rightarrow> string + json" where
  "marshal_FieldError fe =
     (let fields = [(''key'', JString (json_string (FieldName fe))),
                    (''errorCode'', JString (json_string (ErrorCode fe)))]
                   @ (if FieldMessage fe = '''' then []
                      else [(''message'', JString (json_string (FieldMessage fe)))])
      in case Data fe of
           None \<Rightarrow> Inr (JObject fields)
         | Some d \<Rightarrow> (case marshal_dyn d of Inl e \<Rightarrow> Inl e
                      | Inr j \<Rightarrow> Inr (JObject (fields @ [(''data'', j)]))))"

definition marshal_FieldError_ptr :: "FieldError option \<Rightarrow> string + json" where
  "marshal_FieldError_ptr p = (case p of None \<Rightarrow> Inr JNull | Some fe \<Rightarrow> marshal_FieldError fe)"

fun marshal_FieldErrors :: "FieldError option list \<Rightarrow> string + json list" where
  "marshal_FieldErrors [] = Inr []"
| "marshal_FieldErrors (p # ps) =
     (case marshal_FieldError_ptr p of Inl e \<Rightarrow> Inl e
      | Inr j \<Rightarrow> (case marshal_FieldErrors ps of Inl e \<Rightarrow> Inl e | Inr js \<Rightarrow> Inr (j # js)))"

definition marshal_slice :: "FieldError option list option \<Rightarrow> string + json" where
  "marshal_slice s =
     (case s of
        None \<Rightarrow> Inr JNull
      | Some ps \<Rightarrow> (case marshal_FieldErrors ps of Inl e \<Rightarrow> Inl e | Inr js \<Rightarrow> Inr (JArray js)))"

definition marshal_Error :: "Error \<Rightarrow> json" where
  "marshal_Error e =
     JObject ([(''statusCode'', JNumber (StatusCode e))]
              @ (if Message e = '''' then []
                 else [(''message'', JString (json_string (Message e)))]))"

fun json_Marshal :: "result \<Rightarrow> string + json" where
  "json_Marshal (RDyn d) = marshal_dyn d"
| "json_Marshal (RError e) = Inr (marshal_Error e)"
| "json_Marshal (RValidation sc ec msg fes) =
     (case marshal_slice fes of Inl e \<Rightarrow> Inl e
      | Inr j \<Rightarrow> Inr (JObject [(''statusCode'', JNumber sc),
                                (''errorCode'', JString (json_string ec)),
                                (''message'', JString (json_string msg)), (''errors'', j)]))"

section \<open>Handlers and the request context\<close>

text \<open>
  \<open>Pagination.Next\<close> is a \<open>*url.URL\<close>: \<open>None\<close> is the nil pointer (as in \<open>&Pagination{}\<close>),
  \<open>Some u\<close> a URL whose \<open>String()\<close> is \<open>u\<close>.

  A handler is external code. Within one request a handler is invoked at most once (the
  cursor only moves forward), so what it does in that request is one finite sequence of
  calls on the context followed by the error it returns: \<open>body\<close> and \<open>ret\<close>.
  \<open>OpNext\<close> and \<open>OpStop\<close> are \<open>c.Next()\<close> and \<open>c.Stop()\<close>; \<open>OpSetResult\<close> is \<open>SetResult\<close>
  (the assignment to \<open>Result\<close> in context.go); \<open>OpHeaderSet\<close>, \<open>OpWrite\<close> and
  \<open>OpWriteHeader\<close> are calls on the guarded writer the context hands out. The value bag,
  the request body and assignments to the exported fields \<open>R\<close>, \<open>W\<close> and \<open>Params\<close> have no
  part in the chain and are left out.
\<close>

datatype Pagination = Pagination (Next: "string option")

datatype op = OpNext | OpStop | OpSetResult "result option" | OpSetPagination "Pagination option"
  | OpHeaderSet string string | OpWrite string | OpWriteHeader int

record HandlerFunc =
  body :: "op list"
  ret :: "err option"

text \<open>
  \<open>trace\<close> is a ghost field: it records each invocation of a handler (by its position in
  the chain) and each return, with the returned error and the guard's flag at that moment.
  \<open>logs\<close> holds the lines given to the \<open>Errorf\<close> of the embedded platform context, which
  \<open>platform\<close> names.
\<close>

datatype event = EvCall nat | EvRet nat "err option" bool

record Context =
  platform :: string
  R :: Request
  w :: responseWriter
  Result :: "result option"
  Params :: Params
  handlers :: "HandlerFunc list"
  index :: nat
  errs :: "err list"
  pagination :: "Pagination option"
  logs :: "string list"
  trace :: "event list"

definition newContext ::
  "string \<Rightarrow> Request \<Rightarrow> ResponseWriter \<Rightarrow> (string \<times> string) list \<Rightarrow> HandlerFunc list \<Rightarrow> Context" where
  "newContext c r rw p hs =
     \<lparr>platform = c, R = r, w = \<lparr>rw_w = rw, written = False\<rparr>, Result = None,
      Params = \<lparr>params_r = r, params_p = p\<rparr>, handlers = hs, index = 0, errs = [],
      pagination = None, logs = [], trace = []\<rparr>"

definition Stop :: "Context \<Rightarrow> Context" where
  "Stop this = this\<lparr>index := length (handlers this)\<rparr>"

definition SetResult :: "result option \<Rightarrow> Context \<Rightarrow> Context" where
  "SetResult val this = this\<lparr>Result := val\<rparr>"

definition SetPagination :: "Pagination option \<Rightarrow> Context \<Rightarrow> Context" where
  "SetPagination p this = this\<lparr>pagination := p\<rparr>"

definition Errorf :: "string \<Rightarrow> Context \<Rightarrow> Context" where
  "Errorf line this = this\<lparr>logs := logs this @ [line]\<rparr>"

subsection \<open>\<open>Err()\<close>\<close>

definition Context_Err :: "Context \<Rightarrow> err option" where
  "Context_Err this =
     (case errs this of [] \<Rightarrow> None | [e] \<Rightarrow> Some e | e # e' # es \<Rightarrow> Some (ErrSlice (errs this)))"

subsection \<open>Running a handler\<close>

text \<open>
  \<open>run_ops nx\<close> runs the calls of a handler body; \<open>nx\<close> is what \<open>c.Next()\<close> does. The
  recursion of \<open>Next\<close> through the handlers is bounded by fuel: each invocation of a handler
  takes one unit, and \<open>None\<close> means the fuel ran out.
\<close>

fun apply_op :: "op \<Rightarrow> Context \<Rightarrow> Context" where
  "apply_op OpNext c = c"
| "apply_op OpStop c = Stop c"
| "apply_op (OpSetResult v) c = SetResult v c"
| "apply_op (OpSetPagination p) c = SetPagination p c"
| "apply_op (OpHeaderSet k v) c = c\<lparr>w := rw_Header_Set k v (w c)\<rparr>"
| "apply_op (OpWrite b) c = c\<lparr>w := rw_Write (Raw b) (w c)\<rparr>"
| "apply_op (OpWriteHeader s) c = c\<lparr>w := rw_WriteHeader s (w c)\<rparr>"

fun run_ops :: "(Context \<Rightarrow> Context option) \<Rightarrow> op list \<Rightarrow> Context \<Rightarrow> Context option" where
  "run_ops nx [] c = Some c"
| "run_ops nx (OpNext # ops) c = (case nx c of None \<Rightarrow> None | Some c' \<Rightarrow> run_ops nx ops c')"
| "run_ops nx (a # ops) c = run_ops nx ops (apply_op a c)"

definition run_handler ::
  "(Context \<Rightarrow> Context option) \<Rightarrow> nat \<Rightarrow> HandlerFunc \<Rightarrow> Context \<Rightarrow> (err option \<times> Context) option" where
  "run_handler nx i handler c =
     (case run_ops nx (body handler) (c\<lparr>trace := trace c @ [EvCall i]\<rparr>) of
        None \<Rightarrow> None
      | Some c' \<Rightarrow>
          Some (ret handler, c'\<lparr>trace := trace c' @ [EvRet i (ret handler) (written (w c'))]\<rparr>))"

subsection \<open>\<open>Next()\<close> of context.go\<close>

fun Context_Next_fuel :: "nat \<Rightarrow> Context \<Rightarrow> Context option" where
  "Context_Next_fuel 0 this =
     (if index this \<ge> length (handlers this) then Some this else None)"
| "Context_Next_fuel (Suc n) this =
     (if index this \<ge> length (handlers this) then Some this
      else
        let handler = handlers this ! index this;
            this1 = this\<lparr>index := index this + 1\<rparr>
        in case run_handler (Context_Next_fuel n) (index this) handler this1 of
             None \<Rightarrow> None
           | Some (Some e, this2) \<Rightarrow> Some (Stop (this2\<lparr>errs := errs this2 @ [e]\<rparr>))
           | Some (None, this2) \<Rightarrow>
               if written (w this2) then Some (Stop this2) else Context_Next_fuel n this2)"

definition Context_Next :: "Context \<Rightarrow> Context option" where
  "Context_Next this = Context_Next_fuel (length (handlers this) - index this) this"

subsection \<open>\<open>Next()\<close> and \<open>do()\<close> of the interface variant\<close>

definition context_do ::
  "(Context \<Rightarrow> Context option) \<Rightarrow> nat \<Rightarrow> HandlerFunc \<Rightarrow> Context \<Rightarrow> (bool \<times> Context) option" where
  "context_do nx i handler this =
     (case run_handler nx i handler this of
        None \<Rightarrow> None
      | Some (Some e, this') \<Rightarrow> Some (False, this'\<lparr>errs := errs this' @ [e]\<rparr>)
      | Some (None, this') \<Rightarrow> Some (True, this'))"

fun context_Next_fuel :: "nat \<Rightarrow> Context \<Rightarrow> Context option" where
  "context_Next_fuel 0 this =
     (if index this \<ge> length (handlers this) then Some this else None)"
| "context_Next_fuel (Suc n) this =
     (if index this \<ge> length (handlers this) then Some this
      else
        let handler = handlers this ! index this;
            this1 = this\<lparr>index := index this + 1\<rparr>
        in case context_do (context_Next_fuel n) (index this) handler this1 of
             None \<Rightarrow> None
           | Some (True, this2) \<Rightarrow> context_Next_fuel n this2
           | Some (False, this2) \<Rightarrow> Some (Stop this2))"

definition context_Next :: "Context \<Rightarrow> Context option" where
  "context_Next this = context_Next_fuel (length (handlers this) - index this) this"

definition context_Err :: "Context \<Rightarrow> err option" where
  "context_Err this =
     (case errs this of [] \<Rightarrow> None | [e] \<Rightarrow> Some e | e # e' # es \<Rightarrow> Some (ErrSlice (errs this)))"

section \<open>Response resolution policy\<close>

text \<open>
  A panic is a value. Both variants of \<open>respond\<close> write through the guarded writer. In the
  interface variant \<open>this.pagination.Next.String()\<close> dereferences \<open>Next\<close>: on a hint whose
  \<open>Next\<close> is nil \<open>respond\<close> panics, before it has set a header or written anything.
\<close>

datatype panic = Panic string | NilDereference

definition marshal_error_line :: "string \<Rightarrow> string" where
  "marshal_error_line e = ''json.Marshal error of response body: '' @ e"

definition context_respond :: "Context \<Rightarrow> panic + Context" where
  "context_respond this =
     (if written (w this) then Inr this
      else
        case (case context_Err this of
                Some err \<Rightarrow>
                  (let this0 = SetResult None this
                   in case err of
                        ErrValidation verr \<Rightarrow>
                          Inr (StatusValidationError,
                               SetResult (Some (RValidation StatusValidationError ''multi''
                                 ''Validation error. See errors array for details.'' (Errors verr)))
                                 this0)
                      | ErrAPI apierr \<Rightarrow>
                          Inr (StatusCode apierr,
                               if Message apierr \<noteq> '''' then SetResult (Some (RError apierr)) this0
                               else this0)
                      | _ \<Rightarrow> Inr (StatusInternalServerError, this0))
              | None \<Rightarrow>
                  (case pagination this of
                     Some p \<Rightarrow>
                       (case Next p of
                          None \<Rightarrow> Inl NilDereference
                        | Some u \<Rightarrow>
                            Inr (StatusOK,
                                 this\<lparr>w := rw_Header_Set ''X-Pagination-Next'' u (w this)\<rparr>))
                   | None \<Rightarrow> Inr (StatusOK, this))) of
          Inl pn \<Rightarrow> Inl pn
        | Inr (statusCode, this1) \<Rightarrow>
            (let this2 = this1\<lparr>w := rw_Header_Set ''Content-Type'' ''application/json'' (w this1)\<rparr>
             in Inr (case Result this2 of
                  Some res \<Rightarrow>
                    (case json_Marshal res of
                       Inl e \<Rightarrow>
                         (let this3 = Errorf (marshal_error_line e) this2
                          in this3\<lparr>w := rw_WriteHeader StatusInternalServerError (w this3)\<rparr>)
                     | Inr b \<Rightarrow>
                         (let this3 = this2\<lparr>w := rw_WriteHeader statusCode (w this2)\<rparr>
                          in this3\<lparr>w := rw_Write (Doc b) (w this3)\<rparr>))
                | None \<Rightarrow> this2\<lparr>w := rw_WriteHeader statusCode (w this2)\<rparr>)))"

definition Context_respond :: "Context \<Rightarrow> Context" where
  "Context_respond this =
     (if written (w this) then this
      else
        let (statusCode, this1) =
              (case Context_Err this of
                 Some err \<Rightarrow>
                   (let this0 = this\<lparr>Result := None\<rparr>
                    in case err of
                         ErrValidation verr \<Rightarrow>
                           (StatusValidationError,
                            this0\<lparr>Result := Some (RValidation StatusValidationError ''multi''
                              ''Validation error. See errors array for details.'' (Errors verr))\<rparr>)
                       | ErrAPI apierr \<Rightarrow>
                           (StatusCode apierr,
                            if Message apierr \<noteq> '''' then this0\<lparr>Result := Some (RError apierr)\<rparr>
                            else this0)
                       | _ \<Rightarrow> (StatusInternalServerError, this0))
               | None \<Rightarrow> (StatusOK, this));
            this2 = this1\<lparr>w := rw_Header_Set ''Content-Type'' ''application/json'' (w this1)\<rparr>
        in case Result this2 of
             Some res \<Rightarrow>
               (case json_Marshal res of
                  Inl e \<Rightarrow>
                    (let this3 = Errorf (marshal_error_line e) this2
                     in this3\<lparr>w := rw_WriteHeader StatusInternalServerError (w this3)\<rparr>)
                | Inr b \<Rightarrow>
                    (let this3 = this2\<lparr>w := rw_WriteHeader statusCode (w this2)\<rparr>
                     in this3\<lparr>w := rw_Write (Doc b) (w this3)\<rparr>))
           | None \<Rightarrow> this2\<lparr>w := rw_WriteHeader statusCode (w this2)\<rparr>)"

section \<open>Router (router.go)\<close>

text \<open>
  The external URL router is modelled by its table of registered routes; its \<open>Handle\<close>
  refuses a path that does not begin with a slash (conflicts between routes are not
  modelled). A sub-router holds its parent.
\<close>

type_synonym Handle =
  "ResponseWriter \<Rightarrow> Request \<Rightarrow> (string \<times> string) list \<Rightarrow> (panic + Context) option"

type_synonym httprouter = "(string \<times> string \<times> Handle) list"

definition httprouter_Handle ::
  "httprouter \<Rightarrow> string \<Rightarrow> string \<Rightarrow> Handle \<Rightarrow> panic + httprouter" where
  "httprouter_Handle hr method pth handle =
     (case pth of
        [] \<Rightarrow> Inl (Panic ''index out of range'')
      | ch # rest \<Rightarrow>
          if ch \<noteq> CHR ''/''
          then Inl (Panic (''path must begin with '' @ [CHR 0x27] @ ''/'' @ [CHR 0x27]
                           @ '' in path '' @ [CHR 0x27] @ pth @ [CHR 0x27]))
          else Inr (hr @ [(method, pth, handle)]))"

datatype Router = Router
  (CreateContext: "(Request \<Rightarrow> string) option")
  (parent: "Router option")
  (r: "httprouter option")
  (path: string)
  (mw: "HandlerFunc list")

definition NewRouter :: Router where
  "NewRouter = Router (Some (\<lambda>req. ''appengine'')) None (Some []) '''' []"

definition SubRouter :: "Router \<Rightarrow> string \<Rightarrow> Router" where
  "SubRouter this pth = Router None (Some this) None (path this @ pth) []"

definition Use :: "Router \<Rightarrow> HandlerFunc \<Rightarrow> Router" where
  "Use this middleware =
     Router (CreateContext this) (parent this) (r this) (path this) (mw this @ [middleware])"

fun Router_router :: "Router \<Rightarrow> panic + httprouter" where
  "Router_router (Router cc par hr pth m) =
     (case hr of
        Some x \<Rightarrow> Inr x
      | None \<Rightarrow> (case par of None \<Rightarrow> Inl NilDereference | Some p \<Rightarrow> Router_router p))"

fun Router_middleware :: "Router \<Rightarrow> HandlerFunc list" where
  "Router_middleware (Router cc par hr pth m) =
     (case par of None \<Rightarrow> [] | Some p \<Rightarrow> Router_middleware p) @ m"

fun Router_createContext :: "Router \<Rightarrow> Request \<Rightarrow> panic + string" where
  "Router_createContext (Router cc par hr pth m) req =
     (case cc of
        Some f \<Rightarrow> Inr (f req)
      | None \<Rightarrow>
          (case par of
             Some p \<Rightarrow> Router_createContext p req
           | None \<Rightarrow> Inl (Panic ''No CreateContext func is set'')))"

definition wrap :: "(Request \<Rightarrow> panic + string) \<Rightarrow> HandlerFunc list \<Rightarrow> Handle" where
  "wrap createContext hs =
     (\<lambda>rw req p.
        case createContext req of
          Inl pn \<Rightarrow> Some (Inl pn)
        | Inr c \<Rightarrow>
            (case Context_Next (newContext c req rw p hs) of
               None \<Rightarrow> None
             | Some ctx \<Rightarrow> Some (Inr (Context_respond ctx))))"

definition Router_route ::
  "Router \<Rightarrow> string \<Rightarrow> string \<Rightarrow> HandlerFunc list \<Rightarrow> panic + httprouter" where
  "Router_route this method pth hs =
     (let fns = Router_middleware this @ hs
      in case Router_router this of
           Inl pn \<Rightarrow> Inl pn
         | Inr hr \<Rightarrow>
             httprouter_Handle hr method (path this @ pth) (wrap (Router_createContext this) fns))"

section \<open>Observations on a run\<close>

text \<open>
  \<open>sent\<close> is what reached the underlying writer and \<open>headers\<close> its header map.
  \<open>returned_errs\<close> lists the errors that handlers returned, in the order of the returns.
  \<open>quiet_after P\<close> says that no handler is invoked after an event that satisfies \<open>P\<close>;
  \<open>of_chain\<close> that an event belongs to a handler of the chain and carries what that handler
  returns; \<open>below n\<close> that an invocation is of a handler before position \<open>n\<close>;
  \<open>plain_returns\<close> that when a handler whose body does not call \<open>Next()\<close> returns, no handler
  after it has been invoked; \<open>good\<close> collects what every reachable context satisfies.
\<close>

definition sent :: "Context \<Rightarrow> wire list" where
  "sent c = wire (rw_w (w c))"

definition headers :: "Context \<Rightarrow> (string \<rightharpoonup> string)" where
  "headers c = header (rw_w (w c))"

text \<open>\<open>hint_usable\<close>: no pagination hint is set, or the hint that is set has a \<open>Next\<close>.\<close>

definition hint_usable :: "Context \<Rightarrow> bool" where
  "hint_usable c = (case pagination c of None \<Rightarrow> True | Some p \<Rightarrow> Next p \<noteq> None)"

text \<open>The JSON object that \<open>respond\<close> builds for a validation error, given its \<open>errors\<close> member.\<close>

definition validation_body :: "json \<Rightarrow> json" where
  "validation_body errors =
     JObject [(''statusCode'', JNumber 422), (''errorCode'', JString ''multi''),
              (''message'', JString ''Validation error. See errors array for details.''),
              (''errors'', errors)]"

fun is_call :: "event \<Rightarrow> bool" where
  "is_call (EvCall i) = True"
| "is_call (EvRet i e wr) = False"

fun returned_err :: "event \<Rightarrow> err option" where
  "returned_err (EvCall i) = None"
| "returned_err (EvRet i e wr) = e"

definition returned_errs :: "event list \<Rightarrow> err list" where
  "returned_errs t = List.map_filter returned_err t"

fun error_return :: "event \<Rightarrow> bool" where
  "error_return (EvCall i) = False"
| "error_return (EvRet i e wr) = (e \<noteq> None)"

fun ends_chain :: "event \<Rightarrow> bool" where
  "ends_chain (EvCall i) = False"
| "ends_chain (EvRet i e wr) = (e \<noteq> None \<or> wr)"

fun quiet_after :: "(event \<Rightarrow> bool) \<Rightarrow> event list \<Rightarrow> bool" where
  "quiet_after P [] = True"
| "quiet_after P (ev # t) =
     ((if P ev then list_all (\<lambda>x. \<not> is_call x) t else True) \<and> quiet_after P t)"

fun of_chain :: "HandlerFunc list \<Rightarrow> event \<Rightarrow> bool" where
  "of_chain hs (EvCall i) = (i < length hs)"
| "of_chain hs (EvRet i e wr) = (i < length hs \<and> e = ret (hs ! i))"

fun below :: "nat \<Rightarrow> event \<Rightarrow> bool" where
  "below n (EvCall j) = (j < n)"
| "below n (EvRet j e wr) = True"

definition plain_returns :: "HandlerFunc list \<Rightarrow> event list \<Rightarrow> bool" where
  "plain_returns hs t =
     (\<forall>pre k e wr post. t = pre @ EvRet k e wr # post \<and> OpNext \<notin> set (body (hs ! k))
        \<longrightarrow> list_all (below (Suc k)) pre)"

definition good :: "(event \<Rightarrow> bool) \<Rightarrow> wire list \<Rightarrow> Context \<Rightarrow> bool" where
  "good P w0 c =
     (index c \<le> length (handlers c) \<and> errs c = returned_errs (trace c)
      \<and> (written (w c) \<or> wire (rw_w (w c)) = w0)
      \<and> (if list_ex P (trace c) then length (handlers c) \<le> index c else True)
      \<and> quiet_after P (trace c)
      \<and> list_all (of_chain (handlers c)) (trace c)
      \<and> list_all (below (index c)) (trace c)
      \<and> plain_returns (handlers c) (trace c))"

text \<open>A no-hook router: neither it nor any ancestor has a \<open>CreateContext\<close>.\<close>

fun no_CreateContext :: "Router \<Rightarrow> bool" where
  "no_CreateContext (Router cc par hr pth m) =
     (cc = None \<and> (case par of None \<Rightarrow> True | Some p \<Rightarrow> no_CreateContext p))"

subsection \<open>Concrete inputs\<close>

definition req0 :: Request where
  "req0 = \<lparr>Method = ''GET'', Query = Map.empty\<rparr>"

definition rw0 :: ResponseWriter where
  "rw0 = \<lparr>header = Map.empty, wire = []\<rparr>"

definition handler :: "op list \<Rightarrow> err option \<Rightarrow> HandlerFunc" where
  "handler ops e = \<lparr>body = ops, ret = e\<rparr>"

definition request :: "HandlerFunc list \<Rightarrow> Context" where
  "request hs = newContext ''platform'' req0 rw0 [] hs"

lemma quiet_after_snoc:
  "quiet_after P (t @ [ev]) = (quiet_after P t \<and> (is_call ev \<longrightarrow> \<not> list_ex P t))"
  by (induction t) (auto simp: list_ex_iff list_all_iff)

lemma quiet_after_split:
  "quiet_after P (pre @ ev # post) \<Longrightarrow> P ev \<Longrightarrow> \<forall>x\<in>set post. \<not> is_call x"
  by (induction pre) (auto simp: list_all_iff)

lemma quiet_after_mono:
  "quiet_after P t \<Longrightarrow> (\<And>ev. Q ev \<Longrightarrow> P ev) \<Longrightarrow> quiet_after Q t"
  by (induction t) (auto split: if_splits)

lemma returned_errs_snoc:
  "returned_errs (t @ [ev]) = returned_errs t @ (case returned_err ev of None \<Rightarrow> [] | Some e \<Rightarrow> [e])"
  by (simp add: returned_errs_def List.map_filter_def split: option.splits)

lemma list_all_below_mono: "list_all (below n) t \<Longrightarrow> n \<le> m \<Longrightarrow> list_all (below m) t"
proof -
  have "\<And>ev. below n ev \<Longrightarrow> n \<le> m \<Longrightarrow> below m ev"
  proof -
    fix ev assume "below n ev" "n \<le> m" then show "below m ev" by (cases ev) auto
  qed
  then show "list_all (below n) t \<Longrightarrow> n \<le> m \<Longrightarrow> list_all (below m) t"
    by (auto simp: list_all_iff)
qed

lemma plain_returns_Nil: "plain_returns hs []"
  by (simp add: plain_returns_def)

lemma plain_returns_snoc:
  "plain_returns hs (t @ [ev]) =
     (plain_returns hs t
      \<and> (\<forall>k e wr. ev = EvRet k e wr \<and> OpNext \<notin> set (body (hs ! k)) \<longrightarrow> list_all (below (Suc k)) t))"
proof
  assume a: "plain_returns hs (t @ [ev])"
  have "plain_returns hs t" unfolding plain_returns_def
  proof (intro allI impI)
    fix pre k e wr post
    assume "t = pre @ EvRet k e wr # post \<and> OpNext \<notin> set (body (hs ! k))"
    then have "t @ [ev] = pre @ EvRet k e wr # (post @ [ev]) \<and> OpNext \<notin> set (body (hs ! k))"
      by simp
    with a show "list_all (below (Suc k)) pre" unfolding plain_returns_def by blast
  qed
  moreover have "\<forall>k e wr. ev = EvRet k e wr \<and> OpNext \<notin> set (body (hs ! k))
      \<longrightarrow> list_all (below (Suc k)) t"
  proof (intro allI impI)
    fix k e wr assume "ev = EvRet k e wr \<and> OpNext \<notin> set (body (hs ! k))"
    then have "t @ [ev] = t @ EvRet k e wr # [] \<and> OpNext \<notin> set (body (hs ! k))" by simp
    with a show "list_all (below (Suc k)) t" unfolding plain_returns_def by blast
  qed
  ultimately show "plain_returns hs t
      \<and> (\<forall>k e wr. ev = EvRet k e wr \<and> OpNext \<notin> set (body (hs ! k)) \<longrightarrow> list_all (below (Suc k)) t)"
    by simp
next
  assume a: "plain_returns hs t
      \<and> (\<forall>k e wr. ev = EvRet k e wr \<and> OpNext \<notin> set (body (hs ! k)) \<longrightarrow> list_all (below (Suc k)) t)"
  show "plain_returns hs (t @ [ev])" unfolding plain_returns_def
  proof (intro allI impI)
    fix pre k e wr post
    assume b: "t @ [ev] = pre @ EvRet k e wr # post \<and> OpNext \<notin> set (body (hs ! k))"
    show "list_all (below (Suc k)) pre"
    proof (cases post rule: rev_cases)
      case Nil
      with b have "t = pre" "ev = EvRet k e wr" by auto
      with a b show ?thesis by blast
    next
      case (snoc post' x)
      with b have "t = pre @ EvRet k e wr # post'" by auto
      with a b show ?thesis unfolding plain_returns_def by blast
    qed
  qed
qed

lemma run_ops_trace:
  "OpNext \<notin> set ops \<Longrightarrow> run_ops nx ops c = Some c' \<Longrightarrow> trace c' = trace c"
proof (induction ops arbitrary: c)
  case Nil
  then show ?case by simp
next
  case (Cons a ops)
  from Cons.prems(1) have na: "a \<noteq> OpNext" and no: "OpNext \<notin> set ops" by auto
  have t: "trace (apply_op a c) = trace c"
    by (cases a)
       (simp_all add: Stop_def SetResult_def SetPagination_def)
  from na Cons.prems(2) have "run_ops nx ops (apply_op a c) = Some c'" by (cases a) simp_all
  from Cons.IH[OF no this] t show ?case by simp
qed

lemma apply_op_good:
  "good P w0 c \<Longrightarrow>
   good P w0 (apply_op a c) \<and> handlers (apply_op a c) = handlers c \<and> index c \<le> index (apply_op a c)"
  by (cases a)
     (auto simp: good_def Stop_def SetResult_def SetPagination_def rw_Header_Set_def rw_Write_def
        rw_WriteHeader_def intro: list_all_below_mono)

lemma run_ops_good:
  assumes nx: "\<And>c. good P w0 c \<Longrightarrow> handlers c = hs \<Longrightarrow> m \<le> index c \<Longrightarrow>
                 \<exists>c'. nx c = Some c' \<and> good P w0 c' \<and> handlers c' = hs \<and> index c \<le> index c'"
  shows "good P w0 c \<Longrightarrow> handlers c = hs \<Longrightarrow> m \<le> index c \<Longrightarrow>
         \<exists>c'. run_ops nx ops c = Some c' \<and> good P w0 c' \<and> handlers c' = hs \<and> index c \<le> index c'"
proof (induction ops arbitrary: c)
  case Nil
  then show ?case by simp
next
  case (Cons a ops)
  show ?case
  proof (cases "a = OpNext")
    case True
    from nx[OF Cons.prems] obtain c1 where
      c1: "nx c = Some c1" "good P w0 c1" "handlers c1 = hs" "index c \<le> index c1" by blast
    from Cons.IH[OF c1(2,3)] Cons.prems(3) c1(4) obtain c2 where
      "run_ops nx ops c1 = Some c2" "good P w0 c2" "handlers c2 = hs" "index c1 \<le> index c2"
      by (meson le_trans)
    with c1 True show ?thesis by (auto intro: le_trans)
  next
    case False
    let ?c1 = "apply_op a c"
    from apply_op_good[OF Cons.prems(1), of a] have
      g: "good P w0 ?c1" "handlers ?c1 = handlers c" "index c \<le> index ?c1" by auto
    from Cons.IH[OF g(1)] g(2,3) Cons.prems(2,3) obtain c2 where
      c2: "run_ops nx ops ?c1 = Some c2" "good P w0 c2" "handlers c2 = hs" "index ?c1 \<le> index c2"
      by (metis le_trans)
    have "run_ops nx (a # ops) c = run_ops nx ops ?c1" using False by (cases a) auto
    with c2 g(3) show ?thesis by (auto intro: le_trans)
  qed
qed

lemma run_handler_good:
  assumes nx: "\<And>c. good P w0 c \<Longrightarrow> handlers c = hs \<Longrightarrow> m \<le> index c \<Longrightarrow>
                 \<exists>c'. nx c = Some c' \<and> good P w0 c' \<and> handlers c' = hs \<and> index c \<le> index c'"
    and c: "good P w0 c" "handlers c = hs" "m \<le> index c" "\<not> list_ex P (trace c)"
    and nc: "\<not> P (EvCall i)" and il: "i < length hs" and ii: "i < index c"
  shows "\<exists>c'. run_handler nx i h c
               = Some (ret h, c'\<lparr>trace := trace c' @ [EvRet i (ret h) (written (w c'))]\<rparr>)
             \<and> good P w0 c' \<and> handlers c' = hs \<and> index c \<le> index c'
             \<and> (OpNext \<notin> set (body h) \<longrightarrow> trace c' = trace c @ [EvCall i])"
proof -
  let ?c1 = "c\<lparr>trace := trace c @ [EvCall i]\<rparr>"
  have g1: "good P w0 ?c1" using c nc il ii
    by (auto simp: good_def quiet_after_snoc returned_errs_snoc plain_returns_snoc list_ex_iff
        split: if_splits)
  from run_ops_good[of P w0 hs m nx ?c1 "body h", OF nx g1] c obtain c2 where
    c2: "run_ops nx (body h) ?c1 = Some c2" "good P w0 c2" "handlers c2 = hs"
      "index c \<le> index c2"
    by auto
  have "OpNext \<notin> set (body h) \<longrightarrow> trace c2 = trace c @ [EvCall i]"
    using run_ops_trace[OF _ c2(1)] by simp
  with c2 show ?thesis by (auto simp: run_handler_def)
qed

lemma Context_Next_fuel_good:
  "good ends_chain w0 c \<Longrightarrow> length (handlers c) - index c \<le> n \<Longrightarrow>
   \<exists>c'. Context_Next_fuel n c = Some c' \<and> good ends_chain w0 c' \<and> handlers c' = handlers c
        \<and> index c \<le> index c' \<and> length (handlers c') \<le> index c'"
proof (induction n arbitrary: c)
  case 0
  then show ?case by (auto simp: good_def)
next
  case (Suc n)
  show ?case
  proof (cases "length (handlers c) \<le> index c")
    case True
    with Suc.prems show ?thesis by auto
  next
    case False
    let ?i = "index c"
    let ?h = "handlers c ! ?i"
    let ?c1 = "c\<lparr>index := ?i + 1\<rparr>"
    have nol: "\<not> list_ex ends_chain (trace c)" using Suc.prems(1) False by (auto simp: good_def)
    have g1: "good ends_chain w0 ?c1" using Suc.prems(1) False
      by (auto simp: good_def intro: list_all_below_mono)
    have nx: "\<And>c'. good ends_chain w0 c' \<Longrightarrow> handlers c' = handlers c \<Longrightarrow> ?i + 1 \<le> index c' \<Longrightarrow>
       \<exists>c''. Context_Next_fuel n c' = Some c'' \<and> good ends_chain w0 c'' \<and> handlers c'' = handlers c
            \<and> index c' \<le> index c''"
    proof -
      fix c' assume a: "good ends_chain w0 c'" "handlers c' = handlers c" "?i + 1 \<le> index c'"
      have "length (handlers c') - index c' \<le> n" using a Suc.prems(2) by auto
      from Suc.IH[OF a(1) this] a(2) show "\<exists>c''. Context_Next_fuel n c' = Some c'' \<and> good ends_chain w0 c'' \<and> handlers c'' = handlers c
            \<and> index c' \<le> index c''" by auto
    qed
    from run_handler_good[of ends_chain w0 "handlers c" "?i + 1" "Context_Next_fuel n" ?c1 ?i ?h, OF nx g1]
      nol False have "\<exists>c2. run_handler (Context_Next_fuel n) ?i ?h ?c1
            = Some (ret ?h, c2\<lparr>trace := trace c2 @ [EvRet ?i (ret ?h) (written (w c2))]\<rparr>)
          \<and> good ends_chain w0 c2 \<and> handlers c2 = handlers c \<and> ?i + 1 \<le> index c2
          \<and> (OpNext \<notin> set (body ?h) \<longrightarrow> trace c2 = trace c @ [EvCall ?i])" by auto
    then obtain c2 where
      rh: "run_handler (Context_Next_fuel n) ?i ?h ?c1
            = Some (ret ?h, c2\<lparr>trace := trace c2 @ [EvRet ?i (ret ?h) (written (w c2))]\<rparr>)"
      and g2: "good ends_chain w0 c2" and h2: "handlers c2 = handlers c" and i2: "?i + 1 \<le> index c2"
      and tr: "OpNext \<notin> set (body ?h) \<longrightarrow> trace c2 = trace c @ [EvCall ?i]"
      by blast
    have pr: "OpNext \<notin> set (body ?h) \<longrightarrow> list_all (below (Suc ?i)) (trace c2)"
      using tr Suc.prems(1) list_all_below_mono[of ?i "trace c" "Suc ?i"]
      by (auto simp: good_def)
    let ?c3 = "c2\<lparr>trace := trace c2 @ [EvRet ?i (ret ?h) (written (w c2))]\<rparr>"
    show ?thesis
    proof (cases "ret ?h")
      case (Some e)
      have "good ends_chain w0 (Stop (?c3\<lparr>errs := errs ?c3 @ [e]\<rparr>))"
        using g2 Some h2 False pr
        by (auto simp: good_def Stop_def quiet_after_snoc returned_errs_snoc plain_returns_snoc
            intro: list_all_below_mono)
      then show ?thesis using False rh Some h2 i2 by (auto simp: Stop_def)
    next
      case None
      show ?thesis
      proof (cases "written (w c2)")
        case True
        have "good ends_chain w0 (Stop ?c3)"
          using g2 None True h2 False pr
          by (auto simp: good_def Stop_def quiet_after_snoc returned_errs_snoc plain_returns_snoc
              intro: list_all_below_mono)
        then show ?thesis using False rh None True h2 i2 by (auto simp: Stop_def)
      next
        case wf: False
        have g3: "good ends_chain w0 ?c3"
          using g2 None wf h2 False pr
          by (auto simp: good_def quiet_after_snoc returned_errs_snoc plain_returns_snoc list_ex_iff
              split: if_splits)
        have "length (handlers ?c3) - index ?c3 \<le> n" using i2 h2 Suc.prems(2) by auto
        from Suc.IH[OF g3 this] obtain c4 where
          "Context_Next_fuel n ?c3 = Some c4" "good ends_chain w0 c4" "handlers c4 = handlers c"
          "index c2 \<le> index c4" "length (handlers c4) \<le> index c4" using h2 by auto
        then show ?thesis using False rh None wf i2 by auto
      qed
    qed
  qed
qed

lemma context_Next_fuel_good:
  "good error_return w0 c \<Longrightarrow> length (handlers c) - index c \<le> n \<Longrightarrow>
   \<exists>c'. context_Next_fuel n c = Some c' \<and> good error_return w0 c' \<and> handlers c' = handlers c
        \<and> index c \<le> index c' \<and> length (handlers c') \<le> index c'"
proof (induction n arbitrary: c)
  case 0
  then show ?case by (auto simp: good_def)
next
  case (Suc n)
  show ?case
  proof (cases "length (handlers c) \<le> index c")
    case True
    with Suc.prems show ?thesis by auto
  next
    case False
    let ?i = "index c"
    let ?h = "handlers c ! ?i"
    let ?c1 = "c\<lparr>index := ?i + 1\<rparr>"
    have nol: "\<not> list_ex error_return (trace c)"
      using Suc.prems(1) False by (auto simp: good_def)
    have g1: "good error_return w0 ?c1" using Suc.prems(1) False
      by (auto simp: good_def intro: list_all_below_mono)
    have nx: "\<And>c'. good error_return w0 c' \<Longrightarrow> handlers c' = handlers c \<Longrightarrow> ?i + 1 \<le> index c' \<Longrightarrow>
       \<exists>c''. context_Next_fuel n c' = Some c'' \<and> good error_return w0 c'' \<and> handlers c'' = handlers c
            \<and> index c' \<le> index c''"
    proof -
      fix c' assume a: "good error_return w0 c'" "handlers c' = handlers c" "?i + 1 \<le> index c'"
      have "length (handlers c') - index c' \<le> n" using a Suc.prems(2) by auto
      from Suc.IH[OF a(1) this] a(2)
      show "\<exists>c''. context_Next_fuel n c' = Some c'' \<and> good error_return w0 c''
              \<and> handlers c'' = handlers c \<and> index c' \<le> index c''" by auto
    qed
    from run_handler_good[of error_return w0 "handlers c" "?i + 1" "context_Next_fuel n" ?c1 ?i ?h,
        OF nx g1] nol False
    have "\<exists>c2. run_handler (context_Next_fuel n) ?i ?h ?c1
            = Some (ret ?h, c2\<lparr>trace := trace c2 @ [EvRet ?i (ret ?h) (written (w c2))]\<rparr>)
          \<and> good error_return w0 c2 \<and> handlers c2 = handlers c \<and> ?i + 1 \<le> index c2
          \<and> (OpNext \<notin> set (body ?h) \<longrightarrow> trace c2 = trace c @ [EvCall ?i])" by auto
    then obtain c2 where
      rh: "run_handler (context_Next_fuel n) ?i ?h ?c1
            = Some (ret ?h, c2\<lparr>trace := trace c2 @ [EvRet ?i (ret ?h) (written (w c2))]\<rparr>)"
      and g2: "good error_return w0 c2" and h2: "handlers c2 = handlers c"
      and i2: "?i + 1 \<le> index c2"
      and tr: "OpNext \<notin> set (body ?h) \<longrightarrow> trace c2 = trace c @ [EvCall ?i]"
      by blast
    have pr: "OpNext \<notin> set (body ?h) \<longrightarrow> list_all (below (Suc ?i)) (trace c2)"
      using tr Suc.prems(1) list_all_below_mono[of ?i "trace c" "Suc ?i"]
      by (auto simp: good_def)
    let ?c3 = "c2\<lparr>trace := trace c2 @ [EvRet ?i (ret ?h) (written (w c2))]\<rparr>"
    show ?thesis
    proof (cases "ret ?h")
      case (Some e)
      have "good error_return w0 (Stop (?c3\<lparr>errs := errs ?c3 @ [e]\<rparr>))"
        using g2 Some h2 False pr
        by (auto simp: good_def Stop_def quiet_after_snoc returned_errs_snoc plain_returns_snoc
            intro: list_all_below_mono)
      then show ?thesis using False rh Some h2 i2 by (auto simp: Stop_def context_do_def)
    next
      case None
      have g3: "good error_return w0 ?c3"
        using g2 None h2 False pr
        by (auto simp: good_def quiet_after_snoc returned_errs_snoc plain_returns_snoc list_ex_iff
            split: if_splits)
      have "length (handlers ?c3) - index ?c3 \<le> n" using i2 h2 Suc.prems(2) by auto
      from Suc.IH[OF g3 this] obtain c4 where
        "context_Next_fuel n ?c3 = Some c4" "good error_return w0 c4" "handlers c4 = handlers c"
        "index c2 \<le> index c4" "length (handlers c4) \<le> index c4" using h2 by auto
      then show ?thesis using False rh None i2 by (auto simp: context_do_def)
    qed
  qed
qed

lemma newContext_good: "good P (wire rw) (newContext pc rq rw p hs)"
  by (simp add: good_def newContext_def returned_errs_def List.map_filter_def plain_returns_Nil)

lemma Context_Next_reaches:
  "\<exists>c. Context_Next (newContext pc rq rw p hs) = Some c \<and> good ends_chain (wire rw) c
       \<and> handlers c = hs \<and> index c = length hs"
proof -
  let ?c0 = "newContext pc rq rw p hs"
  have "length (handlers ?c0) - index ?c0 \<le> length (handlers ?c0) - index ?c0" by simp
  from Context_Next_fuel_good[OF newContext_good this]
  obtain c where "Context_Next ?c0 = Some c" "good ends_chain (wire rw) c"
    "handlers c = handlers ?c0" "length (handlers c) \<le> index c"
    by (auto simp: Context_Next_def)
  moreover have "handlers ?c0 = hs" by (simp add: newContext_def)
  ultimately show ?thesis by (auto simp: good_def)
qed

lemma context_Next_reaches:
  "\<exists>c. context_Next (newContext pc rq rw p hs) = Some c \<and> good error_return (wire rw) c
       \<and> handlers c = hs \<and> index c = length hs"
proof -
  let ?c0 = "newContext pc rq rw p hs"
  have "length (handlers ?c0) - index ?c0 \<le> length (handlers ?c0) - index ?c0" by simp
  from context_Next_fuel_good[OF newContext_good this]
  obtain c where "context_Next ?c0 = Some c" "good error_return (wire rw) c"
    "handlers c = handlers ?c0" "length (handlers c) \<le> index c"
    by (auto simp: context_Next_def)
  moreover have "handlers ?c0 = hs" by (simp add: newContext_def)
  ultimately show ?thesis by (auto simp: good_def)
qed

lemma run_ops_agree:
  assumes nx: "\<And>c. good P w0 c \<Longrightarrow> handlers c = hs \<Longrightarrow> m \<le> index c \<Longrightarrow>
                 \<exists>c'. nx c = Some c' \<and> good P w0 c' \<and> handlers c' = hs \<and> index c \<le> index c'"
    and agree: "\<And>c. good P w0 c \<Longrightarrow> handlers c = hs \<Longrightarrow> m \<le> index c \<Longrightarrow> nx c = nx' c"
  shows "good P w0 c \<Longrightarrow> handlers c = hs \<Longrightarrow> m \<le> index c \<Longrightarrow>
         run_ops nx ops c = run_ops nx' ops c"
proof (induction ops arbitrary: c)
  case Nil
  then show ?case by simp
next
  case (Cons a ops)
  show ?case
  proof (cases "a = OpNext")
    case True
    from nx[OF Cons.prems] obtain c1 where
      c1: "nx c = Some c1" "good P w0 c1" "handlers c1 = hs" "index c \<le> index c1" by blast
    have mi: "m \<le> index c1" using c1(4) Cons.prems(3) by simp
    have e1: "run_ops nx ops c1 = run_ops nx' ops c1" by (rule Cons.IH[OF c1(2,3) mi])
    have e2: "nx' c = Some c1" using agree[OF Cons.prems] c1(1) by simp
    show ?thesis unfolding True by (simp only: run_ops.simps c1(1) e2 e1 option.case)
  next
    case False
    let ?c1 = "apply_op a c"
    from apply_op_good[OF Cons.prems(1), of a] have
      g: "good P w0 ?c1" "handlers ?c1 = handlers c" "index c \<le> index ?c1" by auto
    have mi: "m \<le> index ?c1" using g(3) Cons.prems(3) by simp
    have hh: "handlers ?c1 = hs" using g(2) Cons.prems(2) by simp
    have e1: "run_ops nx ops ?c1 = run_ops nx' ops ?c1" by (rule Cons.IH[OF g(1) hh mi])
    have "run_ops nx (a # ops) c = run_ops nx ops ?c1" using False by (cases a) simp_all
    moreover have "run_ops nx' (a # ops) c = run_ops nx' ops ?c1" using False by (cases a) simp_all
    ultimately show ?thesis using e1 by (simp only:)
  qed
qed

lemma run_handler_agree:
  assumes nx: "\<And>c. good P w0 c \<Longrightarrow> handlers c = hs \<Longrightarrow> m \<le> index c \<Longrightarrow>
                 \<exists>c'. nx c = Some c' \<and> good P w0 c' \<and> handlers c' = hs \<and> index c \<le> index c'"
    and agree: "\<And>c. good P w0 c \<Longrightarrow> handlers c = hs \<Longrightarrow> m \<le> index c \<Longrightarrow> nx c = nx' c"
    and c: "good P w0 c" "handlers c = hs" "m \<le> index c" "\<not> list_ex P (trace c)"
    and nc: "\<not> P (EvCall i)" and il: "i < length hs" and ii: "i < index c"
  shows "run_handler nx i h c = run_handler nx' i h c"
proof -
  let ?c1 = "c\<lparr>trace := trace c @ [EvCall i]\<rparr>"
  have g1: "good P w0 ?c1" using c nc il ii
    by (auto simp: good_def quiet_after_snoc returned_errs_snoc plain_returns_snoc list_ex_iff
        split: if_splits)
  have hh: "handlers ?c1 = hs" and mi: "m \<le> index ?c1" using c by simp_all
  have "run_ops nx (body h) ?c1 = run_ops nx' (body h) ?c1"
    by (rule run_ops_agree[of P w0 hs m nx nx' ?c1 "body h", OF nx agree g1 hh mi])
  then show ?thesis by (simp only: run_handler_def)
qed

text \<open>
  Any fuel that covers the handlers not yet invoked gives the same run: a \<open>Next()\<close> that a
  handler calls does what \<open>Next()\<close> does.
\<close>

lemma Context_Next_fuel_enough:
  "good ends_chain w0 c \<Longrightarrow> length (handlers c) - index c \<le> n \<Longrightarrow>
   length (handlers c) - index c \<le> m \<Longrightarrow> Context_Next_fuel n c = Context_Next_fuel m c"
proof (induction n arbitrary: m c)
  case 0
  then show ?case by (cases m) auto
next
  case (Suc n)
  show ?case
  proof (cases "length (handlers c) \<le> index c")
    case True
    then show ?thesis by (cases m) auto
  next
    case False
    with Suc.prems(3) obtain m' where m: "m = Suc m'" by (cases m) auto
    let ?i = "index c"
    let ?h = "handlers c ! ?i"
    let ?c1 = "c\<lparr>index := ?i + 1\<rparr>"
    have nol: "\<not> list_ex ends_chain (trace c)"
      using Suc.prems(1) False by (auto simp: good_def)
    have g1: "good ends_chain w0 ?c1" using Suc.prems(1) False
      by (auto simp: good_def intro: list_all_below_mono)
    have nx: "\<And>c'. good ends_chain w0 c' \<Longrightarrow> handlers c' = handlers c \<Longrightarrow> ?i + 1 \<le> index c' \<Longrightarrow>
       \<exists>c''. Context_Next_fuel n c' = Some c'' \<and> good ends_chain w0 c'' \<and> handlers c'' = handlers c
            \<and> index c' \<le> index c''"
    proof -
      fix c' assume a: "good ends_chain w0 c'" "handlers c' = handlers c" "?i + 1 \<le> index c'"
      have "length (handlers c') - index c' \<le> n" using a Suc.prems(2) by auto
      from Context_Next_fuel_good[OF a(1) this] a(2)
      show "\<exists>c''. Context_Next_fuel n c' = Some c'' \<and> good ends_chain w0 c''
              \<and> handlers c'' = handlers c \<and> index c' \<le> index c''" by auto
    qed
    have agree: "\<And>c'. good ends_chain w0 c' \<Longrightarrow> handlers c' = handlers c \<Longrightarrow> ?i + 1 \<le> index c' \<Longrightarrow>
       Context_Next_fuel n c' = Context_Next_fuel m' c'"
    proof -
      fix c' assume a: "good ends_chain w0 c'" "handlers c' = handlers c" "?i + 1 \<le> index c'"
      have "length (handlers c') - index c' \<le> n" "length (handlers c') - index c' \<le> m'"
        using a Suc.prems(2,3) m by auto
      from Suc.IH[OF a(1) this] show "Context_Next_fuel n c' = Context_Next_fuel m' c'" .
    qed
    have il: "?i < length (handlers c)" using False by simp
    have rh: "run_handler (Context_Next_fuel n) ?i ?h ?c1
          = run_handler (Context_Next_fuel m') ?i ?h ?c1"
      by (rule run_handler_agree[of ends_chain w0 "handlers c" "?i + 1", OF nx agree g1])
         (use nol il in auto)
    from run_handler_good[of ends_chain w0 "handlers c" "?i + 1" "Context_Next_fuel n" ?c1 ?i ?h,
        OF nx g1] nol False
    have "\<exists>c2. run_handler (Context_Next_fuel n) ?i ?h ?c1
            = Some (ret ?h, c2\<lparr>trace := trace c2 @ [EvRet ?i (ret ?h) (written (w c2))]\<rparr>)
          \<and> good ends_chain w0 c2 \<and> handlers c2 = handlers c \<and> ?i + 1 \<le> index c2
          \<and> (OpNext \<notin> set (body ?h) \<longrightarrow> trace c2 = trace c @ [EvCall ?i])" by auto
    then obtain c2 where
      r1: "run_handler (Context_Next_fuel n) ?i ?h ?c1
            = Some (ret ?h, c2\<lparr>trace := trace c2 @ [EvRet ?i (ret ?h) (written (w c2))]\<rparr>)"
      and g2: "good ends_chain w0 c2" and h2: "handlers c2 = handlers c"
      and i2: "?i + 1 \<le> index c2"
      and tr: "OpNext \<notin> set (body ?h) \<longrightarrow> trace c2 = trace c @ [EvCall ?i]"
      by blast
    have pr: "OpNext \<notin> set (body ?h) \<longrightarrow> list_all (below (Suc ?i)) (trace c2)"
      using tr Suc.prems(1) list_all_below_mono[of ?i "trace c" "Suc ?i"]
      by (auto simp: good_def)
    let ?c3 = "c2\<lparr>trace := trace c2 @ [EvRet ?i (ret ?h) (written (w c2))]\<rparr>"
    have cont: "ret ?h = None \<Longrightarrow> \<not> written (w c2) \<Longrightarrow>
        Context_Next_fuel n ?c3 = Context_Next_fuel m' ?c3"
    proof -
      assume a: "ret ?h = None" "\<not> written (w c2)"
      have g3: "good ends_chain w0 ?c3"
        using g2 a h2 False pr
        by (auto simp: good_def quiet_after_snoc returned_errs_snoc plain_returns_snoc list_ex_iff
            split: if_splits)
      have "length (handlers ?c3) - index ?c3 \<le> n" "length (handlers ?c3) - index ?c3 \<le> m'"
        using i2 h2 Suc.prems(2,3) m by auto
      from Suc.IH[OF g3 this] show ?thesis .
    qed
    from r1 have r2: "run_handler (Context_Next_fuel m') ?i ?h ?c1
            = Some (ret ?h, c2\<lparr>trace := trace c2 @ [EvRet ?i (ret ?h) (written (w c2))]\<rparr>)"
      unfolding rh .
    have lhs: "Context_Next_fuel (Suc n) c =
        (case ret ?h of
           Some e \<Rightarrow> Some (Stop (?c3\<lparr>errs := errs ?c3 @ [e]\<rparr>))
         | None \<Rightarrow> if written (w c2) then Some (Stop ?c3) else Context_Next_fuel n ?c3)"
      using False r1 by (simp add: Let_def split: option.splits)
    have rhs: "Context_Next_fuel (Suc m') c =
        (case ret ?h of
           Some e \<Rightarrow> Some (Stop (?c3\<lparr>errs := errs ?c3 @ [e]\<rparr>))
         | None \<Rightarrow> if written (w c2) then Some (Stop ?c3) else Context_Next_fuel m' ?c3)"
      using False r2 by (simp add: Let_def split: option.splits)
    show ?thesis unfolding m lhs rhs using cont by (simp split: option.splits)
  qed
qed

lemma context_Next_fuel_enough:
  "good error_return w0 c \<Longrightarrow> length (handlers c) - index c \<le> n \<Longrightarrow>
   length (handlers c) - index c \<le> m \<Longrightarrow> context_Next_fuel n c = context_Next_fuel m c"
proof (induction n arbitrary: m c)
  case 0
  then show ?case by (cases m) auto
next
  case (Suc n)
  show ?case
  proof (cases "length (handlers c) \<le> index c")
    case True
    then show ?thesis by (cases m) auto
  next
    case False
    with Suc.prems(3) obtain m' where m: "m = Suc m'" by (cases m) auto
    let ?i = "index c"
    let ?h = "handlers c ! ?i"
    let ?c1 = "c\<lparr>index := ?i + 1\<rparr>"
    have nol: "\<not> list_ex error_return (trace c)"
      using Suc.prems(1) False by (auto simp: good_def)
    have g1: "good error_return w0 ?c1" using Suc.prems(1) False
      by (auto simp: good_def intro: list_all_below_mono)
    have nx: "\<And>c'. good error_return w0 c' \<Longrightarrow> handlers c' = handlers c \<Longrightarrow> ?i + 1 \<le> index c' \<Longrightarrow>
       \<exists>c''. context_Next_fuel n c' = Some c'' \<and> good error_return w0 c'' \<and> handlers c'' = handlers c
            \<and> index c' \<le> index c''"
    proof -
      fix c' assume a: "good error_return w0 c'" "handlers c' = handlers c" "?i + 1 \<le> index c'"
      have "length (handlers c') - index c' \<le> n" using a Suc.prems(2) by auto
      from context_Next_fuel_good[OF a(1) this] a(2)
      show "\<exists>c''. context_Next_fuel n c' = Some c'' \<and> good error_return w0 c''
              \<and> handlers c'' = handlers c \<and> index c' \<le> index c''" by auto
    qed
    have agree: "\<And>c'. good error_return w0 c' \<Longrightarrow> handlers c' = handlers c \<Longrightarrow> ?i + 1 \<le> index c' \<Longrightarrow>
       context_Next_fuel n c' = context_Next_fuel m' c'"
    proof -
      fix c' assume a: "good error_return w0 c'" "handlers c' = handlers c" "?i + 1 \<le> index c'"
      have "length (handlers c') - index c' \<le> n" "length (handlers c') - index c' \<le> m'"
        using a Suc.prems(2,3) m by auto
      from Suc.IH[OF a(1) this] show "context_Next_fuel n c' = context_Next_fuel m' c'" .
    qed
    have il: "?i < length (handlers c)" using False by simp
    have rh: "run_handler (context_Next_fuel n) ?i ?h ?c1
          = run_handler (context_Next_fuel m') ?i ?h ?c1"
      by (rule run_handler_agree[of error_return w0 "handlers c" "?i + 1", OF nx agree g1])
         (use nol il in auto)
    from run_handler_good[of error_return w0 "handlers c" "?i + 1" "context_Next_fuel n" ?c1 ?i ?h,
        OF nx g1] nol False
    have "\<exists>c2. run_handler (context_Next_fuel n) ?i ?h ?c1
            = Some (ret ?h, c2\<lparr>trace := trace c2 @ [EvRet ?i (ret ?h) (written (w c2))]\<rparr>)
          \<and> good error_return w0 c2 \<and> handlers c2 = handlers c \<and> ?i + 1 \<le> index c2
          \<and> (OpNext \<notin> set (body ?h) \<longrightarrow> trace c2 = trace c @ [EvCall ?i])" by auto
    then obtain c2 where
      r1: "run_handler (context_Next_fuel n) ?i ?h ?c1
            = Some (ret ?h, c2\<lparr>trace := trace c2 @ [EvRet ?i (ret ?h) (written (w c2))]\<rparr>)"
      and g2: "good error_return w0 c2" and h2: "handlers c2 = handlers c"
      and i2: "?i + 1 \<le> index c2"
      and tr: "OpNext \<notin> set (body ?h) \<longrightarrow> trace c2 = trace c @ [EvCall ?i]"
      by blast
    have pr: "OpNext \<notin> set (body ?h) \<longrightarrow> list_all (below (Suc ?i)) (trace c2)"
      using tr Suc.prems(1) list_all_below_mono[of ?i "trace c" "Suc ?i"]
      by (auto simp: good_def)
    let ?c3 = "c2\<lparr>trace := trace c2 @ [EvRet ?i (ret ?h) (written (w c2))]\<rparr>"
    have cont: "ret ?h = None \<Longrightarrow> context_Next_fuel n ?c3 = context_Next_fuel m' ?c3"
    proof -
      assume a: "ret ?h = None"
      have g3: "good error_return w0 ?c3"
        using g2 a h2 False pr
        by (auto simp: good_def quiet_after_snoc returned_errs_snoc plain_returns_snoc list_ex_iff
            split: if_splits)
      have "length (handlers ?c3) - index ?c3 \<le> n" "length (handlers ?c3) - index ?c3 \<le> m'"
        using i2 h2 Suc.prems(2,3) m by auto
      from Suc.IH[OF g3 this] show ?thesis .
    qed
    from r1 have r2: "run_handler (context_Next_fuel m') ?i ?h ?c1
            = Some (ret ?h, c2\<lparr>trace := trace c2 @ [EvRet ?i (ret ?h) (written (w c2))]\<rparr>)"
      unfolding rh .
    have lhs: "context_Next_fuel (Suc n) c =
        (case ret ?h of
           Some e \<Rightarrow> Some (Stop (?c3\<lparr>errs := errs ?c3 @ [e]\<rparr>))
         | None \<Rightarrow> context_Next_fuel n ?c3)"
      using False r1 by (simp add: Let_def context_do_def split: option.splits)
    have rhs: "context_Next_fuel (Suc m') c =
        (case ret ?h of
           Some e \<Rightarrow> Some (Stop (?c3\<lparr>errs := errs ?c3 @ [e]\<rparr>))
         | None \<Rightarrow> context_Next_fuel m' ?c3)"
      using False r2 by (simp add: Let_def context_do_def split: option.splits)
    show ?thesis unfolding m lhs rhs using cont by (simp split: option.splits)
  qed
qed

lemma nested_Context_Next:
  "good ends_chain w0 c \<Longrightarrow> length (handlers c) - index c \<le> n \<Longrightarrow>
   Context_Next_fuel n c = Context_Next c"
  unfolding Context_Next_def by (rule Context_Next_fuel_enough) simp_all

lemma nested_context_Next:
  "good error_return w0 c \<Longrightarrow> length (handlers c) - index c \<le> n \<Longrightarrow>
   context_Next_fuel n c = context_Next c"
  unfolding context_Next_def by (rule context_Next_fuel_enough) simp_all

lemma json_string_ascii: "\<forall>b\<in>set s. (of_char b :: nat) < 0x80 \<Longrightarrow> json_string s = s"
  by (induction s) (auto simp: json_string.simps Let_def)

lemma Context_respond_written: "written (w c) \<Longrightarrow> Context_respond c = c"
  by (simp add: Context_respond_def)

lemma context_respond_written: "written (w c) \<Longrightarrow> context_respond c = Inr c"
  by (simp add: context_respond_def)

lemmas respond_simps =
  Let_def SetResult_def Errorf_def rw_Header_Set_def rw_Write_def rw_WriteHeader_def
  sent_def headers_def StatusOK_def StatusInternalServerError_def StatusValidationError_def

text \<open>
  The interface variant's \<open>respond\<close> in terms of the one of context.go: they agree when an
  error was recorded or no hint is set; a hint with a \<open>Next\<close> adds its header first; a hint
  without one makes it panic.
\<close>

lemma context_Err_eq: "context_Err c = Context_Err c"
  by (simp add: context_Err_def Context_Err_def)

lemma context_respond_error:
  "\<not> written (w c) \<Longrightarrow> errs c \<noteq> [] \<Longrightarrow> context_respond c = Inr (Context_respond c)"
  by (auto simp: context_respond_def Context_respond_def context_Err_def Context_Err_def
      Let_def SetResult_def split: list.splits err.splits)

lemma context_respond_no_hint:
  "\<not> written (w c) \<Longrightarrow> errs c = [] \<Longrightarrow> pagination c = None \<Longrightarrow>
   context_respond c = Inr (Context_respond c)"
  by (simp add: context_respond_def Context_respond_def context_Err_def Context_Err_def Let_def)

lemma context_respond_hint:
  "\<not> written (w c) \<Longrightarrow> errs c = [] \<Longrightarrow> pagination c = Some p \<Longrightarrow> Next p = Some u \<Longrightarrow>
   context_respond c
     = Inr (Context_respond (c\<lparr>w := rw_Header_Set ''X-Pagination-Next'' u (w c)\<rparr>))"
  by (simp add: context_respond_def Context_respond_def context_Err_def Context_Err_def Let_def
      rw_Header_Set_def)

lemma context_respond_nil_Next:
  "\<not> written (w c) \<Longrightarrow> errs c = [] \<Longrightarrow> pagination c = Some p \<Longrightarrow> Next p = None \<Longrightarrow>
   context_respond c = Inl NilDereference"
  by (simp add: context_respond_def context_Err_def)

lemma Context_respond_sent:
  "\<not> written (w c) \<Longrightarrow>
   (\<exists>s. sent (Context_respond c) = sent c @ [WroteHeader s])
   \<or> (\<exists>s b. sent (Context_respond c) = sent c @ [WroteHeader s, WroteBody (Doc b)])"
  by (auto simp: Context_respond_def respond_simps
      split: option.splits err.splits sum.splits prod.splits if_splits)

lemma context_respond_usable:
  assumes "\<not> written (w c)" and "errs c \<noteq> [] \<or> hint_usable c"
  shows "\<exists>c2. context_respond c = Inr (Context_respond c2) \<and> \<not> written (w c2) \<and> sent c2 = sent c
           \<and> errs c2 = errs c \<and> Result c2 = Result c \<and> logs c2 = logs c
           \<and> headers c2 = (if errs c = [] then
                               (case pagination c of
                                  None \<Rightarrow> headers c
                                | Some p \<Rightarrow> (headers c)(''X-Pagination-Next'' \<mapsto> the (Next p)))
                             else headers c)"
proof (cases "errs c = []")
  case False
  with context_respond_error[OF assms(1)] assms(1) show ?thesis by auto
next
  case True
  show ?thesis
  proof (cases "pagination c")
    case None
    with context_respond_no_hint[OF assms(1) True] assms(1) True show ?thesis by auto
  next
    case (Some p)
    with assms(2) True obtain u where u: "Next p = Some u" by (auto simp: hint_usable_def)
    let ?c2 = "c\<lparr>w := rw_Header_Set ''X-Pagination-Next'' u (w c)\<rparr>"
    have "context_respond c = Inr (Context_respond ?c2)"
      by (rule context_respond_hint[OF assms(1) True Some u])
    moreover have "\<not> written (w ?c2)" "sent ?c2 = sent c" "errs ?c2 = errs c"
      "Result ?c2 = Result c" "logs ?c2 = logs c"
      "headers ?c2 = (headers c)(''X-Pagination-Next'' \<mapsto> u)"
      using assms(1) by (simp_all add: rw_Header_Set_def sent_def headers_def)
    ultimately show ?thesis using True Some u by auto
  qed
qed

section \<open>The recorded errors and their message\<close>

lemma Errors_loop_concat:
  "Errors_loop i es buf =
     buf @ concat (map (\<lambda>(j, e). ''Error #'' @ Sprintf_d (int (j + 1)) @ [CHR 0x0A]
                                   @ err_Error e @ [CHR 0x0A])
                       (enumerate i es))"
  by (induction es arbitrary: i buf) auto

lemma Errors_Error_many:
  assumes "2 \<le> length es"
  shows "Errors_Error es = ''Multiple handlers returned error:'' @ [CHR 0x0A] @
     concat (map (\<lambda>(j, e). ''Error #'' @ Sprintf_d (int (j + 1)) @ [CHR 0x0A]
                             @ err_Error e @ [CHR 0x0A])
                 (enumerate 0 es))"
proof -
  from assms obtain e e' rest where es: "es = e # e' # rest"
    by (cases es; cases "tl es") auto
  show ?thesis unfolding es
    by (simp only: Errors_Error.simps Errors_loop_concat) simp
qed

text \<open>
  Claim C6. \<open>Err()\<close> returns nil when no error was recorded and the recorded error itself
  when there is exactly one. With two or more it returns the slice of the recorded errors,
  whose message is the heading line followed, for each error in recorded order, by a line
  \<open>Error #i\<close> with the 1-based position \<open>i\<close>, the error's own message and a newline. The two
  variants of \<open>Err\<close> and of the slice's \<open>Error\<close> agree.
\<close>

theorem Err_cases:
  "(errs this = [] \<longrightarrow> Context_Err this = None \<and> context_Err this = None)
   \<and> (\<forall>e. errs this = [e] \<longrightarrow> Context_Err this = Some e \<and> context_Err this = Some e)
   \<and> (2 \<le> length (errs this) \<longrightarrow>
        Context_Err this = Some (ErrSlice (errs this))
        \<and> context_Err this = Some (ErrSlice (errs this))
        \<and> err_Error (ErrSlice (errs this)) =
            ''Multiple handlers returned error:'' @ [CHR 0x0A] @
            concat (map (\<lambda>(j, e). ''Error #'' @ Sprintf_d (int (j + 1)) @ [CHR 0x0A]
                                    @ err_Error e @ [CHR 0x0A])
                        (enumerate 0 (errs this)))
        \<and> ErrorSlice_Error (errs this) = err_Error (ErrSlice (errs this)))"
proof (intro conjI impI allI)
  assume len: "2 \<le> length (errs this)"
  then obtain e e' rest where es: "errs this = e # e' # rest"
    by (cases "errs this"; cases "tl (errs this)") auto
  show "Context_Err this = Some (ErrSlice (errs this))" by (simp add: Context_Err_def es)
  show "context_Err this = Some (ErrSlice (errs this))" by (simp add: context_Err_def es)
  show "err_Error (ErrSlice (errs this)) =
            ''Multiple handlers returned error:'' @ [CHR 0x0A] @
            concat (map (\<lambda>(j, e). ''Error #'' @ Sprintf_d (int (j + 1)) @ [CHR 0x0A]
                                    @ err_Error e @ [CHR 0x0A])
                        (enumerate 0 (errs this)))"
    using Errors_Error_many[OF len] by simp
  show "ErrorSlice_Error (errs this) = err_Error (ErrSlice (errs this))"
    by (simp add: ErrorSlice_Error_def)
qed (simp_all add: Context_Err_def context_Err_def)

theorem Err_cases_witness:
  "Context_Err ((request [])\<lparr>errs := [ErrAPI ErrNotFound, ErrOther ''boom'']\<rparr>)
     = Some (ErrSlice [ErrAPI ErrNotFound, ErrOther ''boom''])
   \<and> err_Error (ErrSlice [ErrAPI ErrNotFound, ErrOther ''boom''])
     = ''Multiple handlers returned error:'' @ [CHR 0x0A] @ ''Error #1'' @ [CHR 0x0A]
        @ ''API Error (404): '' @ [CHR 0x0A] @ ''Error #2'' @ [CHR 0x0A] @ ''boom'' @ [CHR 0x0A]"
  using Err_cases [of "(request [])\<lparr>errs := [ErrAPI ErrNotFound, ErrOther ''boom'']\<rparr>"]
  by (simp add: Sprintf_d_def digits.simps digit_char_def ErrNotFound_def NewError_def
      StatusNotFound_def)

section \<open>Parameters of the path and of the query string\<close>

lemma ByName_map_of: "ByName ps k = (case map_of ps k of None \<Rightarrow> '''' | Some v \<Rightarrow> v)"
  by (induction ps) auto

text \<open>
  Claim C10. A path parameter shadows the query string only when its value is not empty:
  \<open>Get\<close> returns the query-string value when the path has no parameter of that key or when
  the parameter's value is the empty string, and the path parameter's value otherwise.
  (\<open>params.Get\<close> of the interface variant has the same text as \<open>Params.Get\<close>.)
\<close>

theorem Params_Get_shadowing:
  "(map_of (params_p this) key = None \<or> map_of (params_p this) key = Some ''''
      \<longrightarrow> Params_Get this key = Values_Get (Query (params_r this)) key)
   \<and> (\<forall>v. map_of (params_p this) key = Some v \<and> v \<noteq> '''' \<longrightarrow> Params_Get this key = v)"
  by (auto simp: Params_Get_def ByName_map_of)

theorem Params_Get_shadowing_witness:
  "Params_Get \<lparr>params_r = \<lparr>Method = ''GET'', Query = [''id'' \<mapsto> [''9'']]\<rparr>,
               params_p = [(''id'', '''')]\<rparr> ''id'' = ''9''
   \<and> Params_Get \<lparr>params_r = \<lparr>Method = ''GET'', Query = [''id'' \<mapsto> [''9'']]\<rparr>,
                 params_p = [(''id'', ''5'')]\<rparr> ''id'' = ''5''"
  using Params_Get_shadowing [of "\<lparr>params_r = \<lparr>Method = ''GET'', Query = [''id'' \<mapsto> [''9'']]\<rparr>,
                                   params_p = [(''id'', '''')]\<rparr>" "''id''"]
    Params_Get_shadowing [of "\<lparr>params_r = \<lparr>Method = ''GET'', Query = [''id'' \<mapsto> [''9'']]\<rparr>,
                               params_p = [(''id'', ''5'')]\<rparr>" "''id''"]
  by (simp add: Values_Get_def)

section \<open>Chain execution\<close>

lemma good_weaken: "good ends_chain w0 c \<Longrightarrow> good error_return w0 c"
proof -
  assume g: "good ends_chain w0 c"
  have imp: "\<And>ev. error_return ev \<Longrightarrow> ends_chain ev"
  proof -
    fix ev assume "error_return ev" then show "ends_chain ev" by (cases ev) auto
  qed
  from g have "quiet_after error_return (trace c)"
    by (auto simp: good_def intro: quiet_after_mono[OF _ imp])
  moreover from g imp have "list_ex error_return (trace c) \<Longrightarrow> length (handlers c) \<le> index c"
    by (auto simp: good_def list_ex_iff split: if_splits)
  ultimately show ?thesis using g by (auto simp: good_def)
qed

lemma good_trace:
  assumes "good P w0 c"
  shows "errs c = returned_errs (trace c)"
    and "\<And>pre ev post. trace c = pre @ ev # post \<Longrightarrow> P ev \<Longrightarrow> \<forall>x\<in>set post. \<not> is_call x"
    and "\<And>k e wr. EvRet k e wr \<in> set (trace c) \<Longrightarrow> k < length (handlers c) \<and> e = ret (handlers c ! k)"
    and "\<not> written (w c) \<Longrightarrow> sent c = w0"
    and "\<And>k e wr j. EvRet k e wr \<in> set (trace c) \<Longrightarrow> P (EvRet k e wr) \<Longrightarrow>
           OpNext \<notin> set (body (handlers c ! k)) \<Longrightarrow> EvCall j \<in> set (trace c) \<Longrightarrow> j \<le> k"
proof -
  show "errs c = returned_errs (trace c)" using assms by (simp add: good_def)
  show "\<And>pre ev post. trace c = pre @ ev # post \<Longrightarrow> P ev \<Longrightarrow> \<forall>x\<in>set post. \<not> is_call x"
  proof -
    fix pre ev post assume t: "trace c = pre @ ev # post" and p: "P ev"
    from assms have "quiet_after P (trace c)" by (simp add: good_def)
    then have "quiet_after P (pre @ ev # post)" unfolding t .
    from quiet_after_split[OF this p] show "\<forall>x\<in>set post. \<not> is_call x" .
  qed
  show "\<And>k e wr. EvRet k e wr \<in> set (trace c) \<Longrightarrow> k < length (handlers c) \<and> e = ret (handlers c ! k)"
  proof -
    fix k e wr assume "EvRet k e wr \<in> set (trace c)"
    moreover from assms have "\<forall>ev\<in>set (trace c). of_chain (handlers c) ev"
      by (simp add: good_def list_all_iff)
    ultimately have "of_chain (handlers c) (EvRet k e wr)" by blast
    then show "k < length (handlers c) \<and> e = ret (handlers c ! k)" by simp
  qed
  show "\<not> written (w c) \<Longrightarrow> sent c = w0" using assms by (auto simp: good_def sent_def)
  show "\<And>k e wr j. EvRet k e wr \<in> set (trace c) \<Longrightarrow> P (EvRet k e wr) \<Longrightarrow>
           OpNext \<notin> set (body (handlers c ! k)) \<Longrightarrow> EvCall j \<in> set (trace c) \<Longrightarrow> j \<le> k"
  proof -
    fix k e wr j
    assume r: "EvRet k e wr \<in> set (trace c)" and p: "P (EvRet k e wr)"
      and n: "OpNext \<notin> set (body (handlers c ! k))" and cl: "EvCall j \<in> set (trace c)"
    from r obtain pre post where t: "trace c = pre @ EvRet k e wr # post"
      by (auto dest: split_list)
    from assms have "plain_returns (handlers c) (trace c)" by (simp add: good_def)
    with t n have pre: "list_all (below (Suc k)) pre" unfolding plain_returns_def by blast
    from assms have "quiet_after P (trace c)" by (simp add: good_def)
    then have "quiet_after P (pre @ EvRet k e wr # post)" unfolding t .
    from quiet_after_split[OF this p] have post: "\<forall>x\<in>set post. \<not> is_call x" .
    from cl t have "EvCall j \<in> set pre \<or> EvCall j \<in> set post" by auto
    then show "j \<le> k"
    proof
      assume "EvCall j \<in> set pre"
      with pre have "below (Suc k) (EvCall j)" unfolding list_all_iff by blast
      then show ?thesis by simp
    next
      assume "EvCall j \<in> set post"
      with post have "\<not> is_call (EvCall j)" by blast
      then show ?thesis by simp
    qed
  qed
qed

lemma Context_respond_StatusError:
  "\<not> written (w c) \<Longrightarrow> Context_Err c = Some (ErrAPI e) \<Longrightarrow>
   sent (Context_respond c) =
     sent c @ (if Message e \<noteq> '''' then [WroteHeader (StatusCode e), WroteBody (Doc (marshal_Error e))]
               else [WroteHeader (StatusCode e)])"
  by (auto simp: Context_respond_def respond_simps)

lemma context_respond_StatusError:
  assumes "\<not> written (w c)" and "context_Err c = Some (ErrAPI e)"
  shows "\<exists>c'. context_respond c = Inr c' \<and>
     sent c' =
       sent c @ (if Message e \<noteq> '''' then [WroteHeader (StatusCode e), WroteBody (Doc (marshal_Error e))]
                 else [WroteHeader (StatusCode e)])"
proof -
  from assms(2) have "errs c \<noteq> []" by (auto simp: context_Err_def)
  from context_respond_error[OF assms(1) this]
  have "context_respond c = Inr (Context_respond c)" .
  moreover from assms(2) have "Context_Err c = Some (ErrAPI e)" by (simp add: context_Err_eq)
  ultimately show ?thesis using Context_respond_StatusError[OF assms(1)] by simp
qed

lemma Context_Next_stops_after_direct_write:
  assumes "Context_Next (newContext pc rq rw p hs) = Some c"
    and "trace c = pre @ EvRet k None True # post"
  shows "\<forall>ev\<in>set post. \<not> is_call ev"
proof -
  from Context_Next_reaches[of pc rq rw p hs] assms(1)
  have "good ends_chain (wire rw) c" by auto
  from good_trace(2)[OF this assms(2)] show ?thesis by simp
qed

text \<open>
  Claim C1. When the handler that \<open>Next()\<close> invoked returns no error and the guard's flag is set,
  the context is exhausted and no further handler of the chain is invoked. \<open>Next\<close> of context.go does
  so (\<open>Context_Next_stops_after_direct_write\<close>). \<open>Next\<close> of the interface variant continues
  whenever \<open>do\<close> reports no error: with a first handler that writes to the response and returns
  nil, the second handler is invoked after that return.
\<close>

theorem context_Next_runs_on_after_direct_write:
  "map_option trace (context_Next (request [handler [OpWrite ''pong''] None, handler [] None]))
     = Some [EvCall 0, EvRet 0 None True, EvCall 1, EvRet 1 None True]
   \<and> map_option trace (Context_Next (request [handler [OpWrite ''pong''] None, handler [] None]))
     = Some [EvCall 0, EvRet 0 None True]"
  by (simp add: request_def handler_def context_Next_def Context_Next_def newContext_def
      numeral_2_eq_2 context_do_def run_handler_def rw_Write_def Stop_def)

text \<open>
  Claim C2, as amended. For every chain: the recorded errors are the errors the handlers returned,
  in the order of the returns; when a handler returns an error, so also a status error, no handler
  is invoked after that return; and when a status error is the only recorded error and no handler
  wrote to the response, the first thing the resolution policy writes is the status that the error
  carries. Every return in the trace is the return of a handler of the chain, and when the
  handler that returned the error did not itself call \<open>Next()\<close>, no handler after it is ever
  invoked.
\<close>

theorem StatusError_stops_chain:
  "(\<exists>c. Context_Next (newContext pc rq rw p hs) = Some c
       \<and> errs c = returned_errs (trace c)
       \<and> (\<forall>k e wr. EvRet k e wr \<in> set (trace c) \<longrightarrow> k < length hs \<and> e = ret (hs ! k))
       \<and> (\<forall>pre k e wr post. trace c = pre @ EvRet k (Some e) wr # post
             \<longrightarrow> (\<forall>ev\<in>set post. \<not> is_call ev))
       \<and> (\<forall>k e wr j. EvRet k (Some e) wr \<in> set (trace c) \<and> OpNext \<notin> set (body (hs ! k))
               \<and> EvCall j \<in> set (trace c) \<longrightarrow> j \<le> k)
       \<and> (\<forall>e. errs c = [ErrAPI e] \<and> \<not> written (w c)
             \<longrightarrow> (\<exists>rest. sent (Context_respond c) = wire rw @ WroteHeader (StatusCode e) # rest)))
   \<and> (\<exists>c. context_Next (newContext pc rq rw p hs) = Some c
       \<and> errs c = returned_errs (trace c)
       \<and> (\<forall>k e wr. EvRet k e wr \<in> set (trace c) \<longrightarrow> k < length hs \<and> e = ret (hs ! k))
       \<and> (\<forall>pre k e wr post. trace c = pre @ EvRet k (Some e) wr # post
             \<longrightarrow> (\<forall>ev\<in>set post. \<not> is_call ev))
       \<and> (\<forall>k e wr j. EvRet k (Some e) wr \<in> set (trace c) \<and> OpNext \<notin> set (body (hs ! k))
               \<and> EvCall j \<in> set (trace c) \<longrightarrow> j \<le> k)
       \<and> (\<forall>e. errs c = [ErrAPI e] \<and> \<not> written (w c)
             \<longrightarrow> (\<exists>c' rest. context_respond c = Inr c'
                    \<and> sent c' = wire rw @ WroteHeader (StatusCode e) # rest)))"
proof
  from Context_Next_reaches[of pc rq rw p hs] obtain c where
    c: "Context_Next (newContext pc rq rw p hs) = Some c" "good ends_chain (wire rw) c"
       "handlers c = hs" by blast
  note g = good_weaken[OF c(2)]
  have 1: "errs c = returned_errs (trace c)" by (rule good_trace(1)[OF g])
  have 2: "\<forall>k e wr. EvRet k e wr \<in> set (trace c) \<longrightarrow> k < length hs \<and> e = ret (hs ! k)"
    using good_trace(3)[OF g] c(3) by blast
  have 3: "\<forall>pre k e wr post. trace c = pre @ EvRet k (Some e) wr # post
             \<longrightarrow> (\<forall>ev\<in>set post. \<not> is_call ev)"
    using good_trace(2)[OF g] by simp
  have 5: "\<forall>k e wr j. EvRet k (Some e) wr \<in> set (trace c) \<and> OpNext \<notin> set (body (hs ! k))
               \<and> EvCall j \<in> set (trace c) \<longrightarrow> j \<le> k"
    using good_trace(5)[OF g] c(3) by (metis error_return.simps(2) option.distinct(1))
  have 4: "\<forall>e. errs c = [ErrAPI e] \<and> \<not> written (w c)
             \<longrightarrow> (\<exists>rest. sent (Context_respond c) = wire rw @ WroteHeader (StatusCode e) # rest)"
  proof (intro allI impI)
    fix e assume a: "errs c = [ErrAPI e] \<and> \<not> written (w c)"
    then have "Context_Err c = Some (ErrAPI e)" by (simp add: Context_Err_def)
    from Context_respond_StatusError[OF _ this] a good_trace(4)[OF g]
    show "\<exists>rest. sent (Context_respond c) = wire rw @ WroteHeader (StatusCode e) # rest"
      by auto
  qed
  from c(1) 1 2 3 4 5
  show "\<exists>c. Context_Next (newContext pc rq rw p hs) = Some c
       \<and> errs c = returned_errs (trace c)
       \<and> (\<forall>k e wr. EvRet k e wr \<in> set (trace c) \<longrightarrow> k < length hs \<and> e = ret (hs ! k))
       \<and> (\<forall>pre k e wr post. trace c = pre @ EvRet k (Some e) wr # post
             \<longrightarrow> (\<forall>ev\<in>set post. \<not> is_call ev))
       \<and> (\<forall>k e wr j. EvRet k (Some e) wr \<in> set (trace c) \<and> OpNext \<notin> set (body (hs ! k))
               \<and> EvCall j \<in> set (trace c) \<longrightarrow> j \<le> k)
       \<and> (\<forall>e. errs c = [ErrAPI e] \<and> \<not> written (w c)
             \<longrightarrow> (\<exists>rest. sent (Context_respond c) = wire rw @ WroteHeader (StatusCode e) # rest))"
    by blast
next
  from context_Next_reaches[of pc rq rw p hs] obtain c where
    c: "context_Next (newContext pc rq rw p hs) = Some c" "good error_return (wire rw) c"
       "handlers c = hs" by blast
  note g = c(2)
  have 1: "errs c = returned_errs (trace c)" by (rule good_trace(1)[OF g])
  have 2: "\<forall>k e wr. EvRet k e wr \<in> set (trace c) \<longrightarrow> k < length hs \<and> e = ret (hs ! k)"
    using good_trace(3)[OF g] c(3) by blast
  have 3: "\<forall>pre k e wr post. trace c = pre @ EvRet k (Some e) wr # post
             \<longrightarrow> (\<forall>ev\<in>set post. \<not> is_call ev)"
    using good_trace(2)[OF g] by simp
  have 5: "\<forall>k e wr j. EvRet k (Some e) wr \<in> set (trace c) \<and> OpNext \<notin> set (body (hs ! k))
               \<and> EvCall j \<in> set (trace c) \<longrightarrow> j \<le> k"
    using good_trace(5)[OF g] c(3) by (metis error_return.simps(2) option.distinct(1))
  have 4: "\<forall>e. errs c = [ErrAPI e] \<and> \<not> written (w c)
             \<longrightarrow> (\<exists>c' rest. context_respond c = Inr c'
                    \<and> sent c' = wire rw @ WroteHeader (StatusCode e) # rest)"
  proof (intro allI impI)
    fix e assume a: "errs c = [ErrAPI e] \<and> \<not> written (w c)"
    then have "context_Err c = Some (ErrAPI e)" by (simp add: context_Err_def)
    from context_respond_StatusError[OF _ this] a good_trace(4)[OF g]
    show "\<exists>c' rest. context_respond c = Inr c'
        \<and> sent c' = wire rw @ WroteHeader (StatusCode e) # rest"
      by auto
  qed
  from c(1) 1 2 3 4 5
  show "\<exists>c. context_Next (newContext pc rq rw p hs) = Some c
       \<and> errs c = returned_errs (trace c)
       \<and> (\<forall>k e wr. EvRet k e wr \<in> set (trace c) \<longrightarrow> k < length hs \<and> e = ret (hs ! k))
       \<and> (\<forall>pre k e wr post. trace c = pre @ EvRet k (Some e) wr # post
             \<longrightarrow> (\<forall>ev\<in>set post. \<not> is_call ev))
       \<and> (\<forall>k e wr j. EvRet k (Some e) wr \<in> set (trace c) \<and> OpNext \<notin> set (body (hs ! k))
               \<and> EvCall j \<in> set (trace c) \<longrightarrow> j \<le> k)
       \<and> (\<forall>e. errs c = [ErrAPI e] \<and> \<not> written (w c)
             \<longrightarrow> (\<exists>c' rest. context_respond c = Inr c'
                    \<and> sent c' = wire rw @ WroteHeader (StatusCode e) # rest))"
    by blast
qed

theorem StatusError_stops_chain_witness:
  "\<exists>c. Context_Next (request [handler [OpSetResult (Some (RDyn (DString ''x'')))] None,
                             handler [] (Some (ErrAPI (NewError 403 ''denied''))),
                             handler [] None]) = Some c
       \<and> trace c = [EvCall 0, EvRet 0 None False, EvCall 1,
                    EvRet 1 (Some (ErrAPI (NewError 403 ''denied''))) False]
       \<and> errs c = [ErrAPI (NewError 403 ''denied'')] \<and> \<not> written (w c)
       \<and> (\<exists>rest. sent (Context_respond c) = WroteHeader 403 # rest)"
proof -
  let ?hs = "[handler [OpSetResult (Some (RDyn (DString ''x'')))] None,
              handler [] (Some (ErrAPI (NewError 403 ''denied''))), handler [] None]"
  have "\<exists>c. Context_Next (request ?hs) = Some c
       \<and> errs c = returned_errs (trace c)
       \<and> (\<forall>k e wr. EvRet k e wr \<in> set (trace c) \<longrightarrow> k < length ?hs \<and> e = ret (?hs ! k))
       \<and> (\<forall>pre k e wr post. trace c = pre @ EvRet k (Some e) wr # post
             \<longrightarrow> (\<forall>ev\<in>set post. \<not> is_call ev))
       \<and> (\<forall>k e wr j. EvRet k (Some e) wr \<in> set (trace c) \<and> OpNext \<notin> set (body (?hs ! k))
               \<and> EvCall j \<in> set (trace c) \<longrightarrow> j \<le> k)
       \<and> (\<forall>e. errs c = [ErrAPI e] \<and> \<not> written (w c)
             \<longrightarrow> (\<exists>rest. sent (Context_respond c) = wire rw0 @ WroteHeader (StatusCode e) # rest))"
    unfolding request_def
    by (rule conjunct1[OF StatusError_stops_chain[of "''platform''" req0 rw0 "[]" ?hs]])
  then obtain c where c: "Context_Next (request ?hs) = Some c"
    and st: "\<forall>e. errs c = [ErrAPI e] \<and> \<not> written (w c)
      \<longrightarrow> (\<exists>rest. sent (Context_respond c) = wire rw0 @ WroteHeader (StatusCode e) # rest)"
    by (elim exE conjE)
  have ev: "Context_Next (request ?hs)
      = Some ((request ?hs)\<lparr>Result := Some (RDyn (DString ''x'')), index := 3,
           errs := [ErrAPI (NewError 403 ''denied'')],
           trace := [EvCall 0, EvRet 0 None False, EvCall 1,
                     EvRet 1 (Some (ErrAPI (NewError 403 ''denied''))) False]\<rparr>)"
    by (simp add: request_def handler_def Context_Next_def newContext_def numeral_3_eq_3
        run_handler_def SetResult_def Stop_def)
  with c have ceq: "c = (request ?hs)\<lparr>Result := Some (RDyn (DString ''x'')), index := 3,
           errs := [ErrAPI (NewError 403 ''denied'')],
           trace := [EvCall 0, EvRet 0 None False, EvCall 1,
                     EvRet 1 (Some (ErrAPI (NewError 403 ''denied''))) False]\<rparr>" by simp
  have e: "errs c = [ErrAPI (NewError 403 ''denied'')]" and nw: "\<not> written (w c)"
    and tr: "trace c = [EvCall 0, EvRet 0 None False, EvCall 1,
                    EvRet 1 (Some (ErrAPI (NewError 403 ''denied''))) False]"
    unfolding ceq by (simp_all add: request_def newContext_def)
  from st e nw have "\<exists>rest. sent (Context_respond c) = WroteHeader 403 # rest"
    by (simp add: rw0_def NewError_def)
  with c e nw tr show ?thesis by blast
qed

theorem StatusError_stops_chain_counterexample:
  "map_option trace (Context_Next (request [handler [OpNext] (Some (ErrAPI ErrNotFound)),
                                           handler [] (Some (ErrAPI (NewError 409 '''')))]))
     = Some [EvCall 0, EvCall 1, EvRet 1 (Some (ErrAPI (NewError 409 ''''))) False,
             EvRet 0 (Some (ErrAPI ErrNotFound)) False]
   \<and> map_option (sent \<circ> Context_respond)
        (Context_Next (request [handler [OpNext] (Some (ErrAPI ErrNotFound)),
                                handler [] (Some (ErrAPI (NewError 409 '''')))]))
     = Some [WroteHeader 500]
   \<and> map_option (map_sum id sent \<circ> context_respond)
        (context_Next (request [handler [OpNext] (Some (ErrAPI ErrNotFound)),
                                handler [] (Some (ErrAPI (NewError 409 '''')))]))
     = Some (Inr [WroteHeader 500])
   \<and> map_option (sent \<circ> Context_respond)
        (Context_Next (request [handler [OpWriteHeader 200] (Some (ErrAPI ErrNotFound))]))
     = Some [WroteHeader 200]
   \<and> map_option (map_sum id sent \<circ> context_respond)
        (context_Next (request [handler [OpWriteHeader 200] (Some (ErrAPI ErrNotFound))]))
     = Some (Inr [WroteHeader 200])"
  by (simp add: request_def handler_def Context_Next_def context_Next_def newContext_def
      numeral_2_eq_2 context_do_def run_handler_def Stop_def rw0_def
      Context_respond_def context_respond_def Context_Err_def context_Err_def respond_simps)

lemma respond_writes_once:
  "(written (w c0) \<longrightarrow> Context_respond c0 = c0 \<and> context_respond c0 = Inr c0)
   \<and> (\<exists>c. Context_Next (newContext pc rq rw p hs) = Some c
        \<and> (written (w c) \<longrightarrow> Context_respond c = c)
        \<and> (\<not> written (w c) \<longrightarrow> sent c = wire rw
              \<and> ((\<exists>s. sent (Context_respond c) = wire rw @ [WroteHeader s])
                 \<or> (\<exists>s b. sent (Context_respond c) = wire rw @ [WroteHeader s, WroteBody (Doc b)]))))
   \<and> (\<exists>c. context_Next (newContext pc rq rw p hs) = Some c
        \<and> (written (w c) \<longrightarrow> context_respond c = Inr c)
        \<and> (\<not> written (w c) \<and> (errs c \<noteq> [] \<or> hint_usable c) \<longrightarrow> sent c = wire rw
              \<and> (\<exists>c'. context_respond c = Inr c'
                    \<and> ((\<exists>s. sent c' = wire rw @ [WroteHeader s])
                       \<or> (\<exists>s b. sent c' = wire rw @ [WroteHeader s, WroteBody (Doc b)]))))
        \<and> (\<not> written (w c) \<and> errs c = [] \<and> \<not> hint_usable c
              \<longrightarrow> sent c = wire rw \<and> context_respond c = Inl NilDereference))"
proof (intro conjI)
  show "written (w c0) \<longrightarrow> Context_respond c0 = c0 \<and> context_respond c0 = Inr c0"
    by (simp add: Context_respond_written context_respond_written)
next
  from Context_Next_reaches[of pc rq rw p hs] obtain c where
    c: "Context_Next (newContext pc rq rw p hs) = Some c" "good ends_chain (wire rw) c" by blast
  have "\<not> written (w c) \<longrightarrow> sent c = wire rw
              \<and> ((\<exists>s. sent (Context_respond c) = wire rw @ [WroteHeader s])
                 \<or> (\<exists>s b. sent (Context_respond c) = wire rw @ [WroteHeader s, WroteBody (Doc b)]))"
    using good_trace(4)[OF c(2)] Context_respond_sent[of c] by auto
  with c(1) show "\<exists>c. Context_Next (newContext pc rq rw p hs) = Some c
        \<and> (written (w c) \<longrightarrow> Context_respond c = c)
        \<and> (\<not> written (w c) \<longrightarrow> sent c = wire rw
              \<and> ((\<exists>s. sent (Context_respond c) = wire rw @ [WroteHeader s])
                 \<or> (\<exists>s b. sent (Context_respond c) = wire rw @ [WroteHeader s, WroteBody (Doc b)])))"
    using Context_respond_written by blast
next
  from context_Next_reaches[of pc rq rw p hs] obtain c where
    c: "context_Next (newContext pc rq rw p hs) = Some c" "good error_return (wire rw) c" by blast
  have 1: "written (w c) \<longrightarrow> context_respond c = Inr c"
    by (simp add: context_respond_written)
  have 2: "\<not> written (w c) \<and> (errs c \<noteq> [] \<or> hint_usable c) \<longrightarrow> sent c = wire rw
              \<and> (\<exists>c'. context_respond c = Inr c'
                    \<and> ((\<exists>s. sent c' = wire rw @ [WroteHeader s])
                       \<or> (\<exists>s b. sent c' = wire rw @ [WroteHeader s, WroteBody (Doc b)])))"
  proof
    assume a: "\<not> written (w c) \<and> (errs c \<noteq> [] \<or> hint_usable c)"
    then have nw: "\<not> written (w c)" and ok: "errs c \<noteq> [] \<or> hint_usable c" by simp_all
    from good_trace(4)[OF c(2) nw] have s: "sent c = wire rw" .
    from context_respond_usable[OF nw ok] obtain c2 where
      c2: "context_respond c = Inr (Context_respond c2)" "\<not> written (w c2)" "sent c2 = sent c"
      by blast
    from Context_respond_sent[OF c2(2)] c2(3) s
    have "(\<exists>s. sent (Context_respond c2) = wire rw @ [WroteHeader s])
          \<or> (\<exists>s b. sent (Context_respond c2) = wire rw @ [WroteHeader s, WroteBody (Doc b)])"
      by simp
    with c2(1) s show "sent c = wire rw
              \<and> (\<exists>c'. context_respond c = Inr c'
                    \<and> ((\<exists>s. sent c' = wire rw @ [WroteHeader s])
                       \<or> (\<exists>s b. sent c' = wire rw @ [WroteHeader s, WroteBody (Doc b)])))"
      by blast
  qed
  have 3: "\<not> written (w c) \<and> errs c = [] \<and> \<not> hint_usable c
              \<longrightarrow> sent c = wire rw \<and> context_respond c = Inl NilDereference"
  proof
    assume a: "\<not> written (w c) \<and> errs c = [] \<and> \<not> hint_usable c"
    then obtain p where "pagination c = Some p" "Next p = None"
      by (auto simp: hint_usable_def split: option.splits)
    with a context_respond_nil_Next[of c p] good_trace(4)[OF c(2)]
    show "sent c = wire rw \<and> context_respond c = Inl NilDereference" by simp
  qed
  from c(1) 1 2 3 show "\<exists>c. context_Next (newContext pc rq rw p hs) = Some c
        \<and> (written (w c) \<longrightarrow> context_respond c = Inr c)
        \<and> (\<not> written (w c) \<and> (errs c \<noteq> [] \<or> hint_usable c) \<longrightarrow> sent c = wire rw
              \<and> (\<exists>c'. context_respond c = Inr c'
                    \<and> ((\<exists>s. sent c' = wire rw @ [WroteHeader s])
                       \<or> (\<exists>s b. sent c' = wire rw @ [WroteHeader s, WroteBody (Doc b)]))))
        \<and> (\<not> written (w c) \<and> errs c = [] \<and> \<not> hint_usable c
              \<longrightarrow> sent c = wire rw \<and> context_respond c = Inl NilDereference)"
    by blast
qed

text \<open>
  Claim C3. Exactly one response is written for every request: after a direct write the
  resolution policy writes nothing, otherwise it writes exactly one status line and at most one
  body. \<open>respond\<close> of context.go does so for every chain, and so does the interface variant
  unless a pagination hint without a \<open>Next\<close> is set and no error was recorded
  (\<open>respond_writes_once\<close>). On such a request the interface variant tests the hint against nil
  but not its \<open>Next\<close>: a handler that sets the hint \<open>&Pagination{}\<close> and returns nil writes
  nothing, and \<open>respond\<close> panics on the nil pointer before it writes a status line. With a
  \<open>Next\<close> in the hint the same handler gets status 200, and so does a handler of context.go
  (which has no hint) that returns nil.
\<close>

theorem context_respond_panics_on_nil_Next:
  "map_option (written \<circ> w)
     (context_Next (request [handler [OpSetPagination (Some (Pagination None))] None]))
     = Some False
   \<and> map_option sent
     (context_Next (request [handler [OpSetPagination (Some (Pagination None))] None]))
     = Some []
   \<and> map_option context_Err
     (context_Next (request [handler [OpSetPagination (Some (Pagination None))] None]))
     = Some None
   \<and> map_option context_respond
     (context_Next (request [handler [OpSetPagination (Some (Pagination None))] None]))
     = Some (Inl NilDereference)
   \<and> map_option (map_sum id sent \<circ> context_respond)
     (context_Next (request [handler [OpSetPagination (Some (Pagination (Some ''/items?page=2'')))]
                               None]))
     = Some (Inr [WroteHeader 200])
   \<and> map_option (sent \<circ> Context_respond)
     (Context_Next (request [handler [] None]))
     = Some [WroteHeader 200]"
  by (simp add: request_def handler_def Context_Next_def context_Next_def newContext_def
      context_do_def run_handler_def Stop_def SetPagination_def rw0_def
      Context_respond_def context_respond_def Context_Err_def context_Err_def respond_simps)

section \<open>Response resolution policy\<close>

lemma marshal_FieldErrors_map:
  "marshal_FieldErrors ps = Inr js \<Longrightarrow> map marshal_FieldError_ptr ps = map Inr js"
  by (induction ps arbitrary: js) (auto split: sum.splits)

lemma json_Marshal_RValidation:
  "json_Marshal (RValidation 422 ''multi'' ''Validation error. See errors array for details.'' s)
     = (case marshal_slice s of Inl e \<Rightarrow> Inl e | Inr j \<Rightarrow> Inr (validation_body j))"
  by (simp add: validation_body_def json_string_ascii split: sum.splits)

lemma Context_respond_ValidationError:
  assumes "\<not> written (w c)" and "Context_Err c = Some (ErrValidation verr)"
  shows "Result (Context_respond c)
           = Some (RValidation 422 ''multi'' ''Validation error. See errors array for details.''
                     (Errors verr))"
    and "marshal_slice (Errors verr) = Inr j \<Longrightarrow>
           sent (Context_respond c) = sent c @ [WroteHeader 422, WroteBody (Doc (validation_body j))]
           \<and> logs (Context_respond c) = logs c"
    and "marshal_slice (Errors verr) = Inl e \<Longrightarrow>
           sent (Context_respond c) = sent c @ [WroteHeader 500]
           \<and> logs (Context_respond c) = logs c @ [marshal_error_line e]"
  using assms
  by (auto simp: Context_respond_def respond_simps json_Marshal_RValidation
      simp del: json_Marshal.simps split: sum.splits)

text \<open>
  Claim C4, as amended. When no handler wrote to the response and \<open>Err()\<close> is a validation error,
  the policy replaces any result by the structure with status code 422, error code \<open>multi\<close>, the
  fixed message and the validation error's slice of field errors. It then writes status 422 and
  the JSON object with these four members, where \<open>errors\<close> is \<open>null\<close> for the nil slice and
  otherwise the array of the JSON forms of the entries in order (\<open>null\<close> for a nil entry);
  when the data of a field error does not serialize, it writes status 500 and no body.
\<close>

theorem ValidationError_response:
  assumes "\<not> written (w c)"
  shows "(Context_Err c = Some (ErrValidation verr) \<longrightarrow>
            Result (Context_respond c)
              = Some (RValidation 422 ''multi'' ''Validation error. See errors array for details.''
                        (Errors verr))
          \<and> (Errors verr = None \<longrightarrow>
                sent (Context_respond c)
                  = sent c @ [WroteHeader 422, WroteBody (Doc (validation_body JNull))])
          \<and> (\<forall>ps js. Errors verr = Some ps \<and> marshal_FieldErrors ps = Inr js \<longrightarrow>
                map marshal_FieldError_ptr ps = map Inr js
              \<and> sent (Context_respond c)
                  = sent c @ [WroteHeader 422, WroteBody (Doc (validation_body (JArray js)))])
          \<and> (\<forall>ps e. Errors verr = Some ps \<and> marshal_FieldErrors ps = Inl e \<longrightarrow>
                sent (Context_respond c) = sent c @ [WroteHeader 500]))
       \<and> (context_Err c = Some (ErrValidation verr) \<longrightarrow>
            (\<exists>c'. context_respond c = Inr c'
              \<and> Result c'
                  = Some (RValidation 422 ''multi'' ''Validation error. See errors array for details.''
                            (Errors verr))
              \<and> (Errors verr = None \<longrightarrow>
                    sent c' = sent c @ [WroteHeader 422, WroteBody (Doc (validation_body JNull))])
              \<and> (\<forall>ps js. Errors verr = Some ps \<and> marshal_FieldErrors ps = Inr js \<longrightarrow>
                    map marshal_FieldError_ptr ps = map Inr js
                  \<and> sent c'
                      = sent c @ [WroteHeader 422, WroteBody (Doc (validation_body (JArray js)))])
              \<and> (\<forall>ps e. Errors verr = Some ps \<and> marshal_FieldErrors ps = Inl e \<longrightarrow>
                    sent c' = sent c @ [WroteHeader 500])))"
proof -
  have A: "Context_Err c = Some (ErrValidation verr) \<longrightarrow>
            Result (Context_respond c)
              = Some (RValidation 422 ''multi'' ''Validation error. See errors array for details.''
                        (Errors verr))
          \<and> (Errors verr = None \<longrightarrow>
                sent (Context_respond c)
                  = sent c @ [WroteHeader 422, WroteBody (Doc (validation_body JNull))])
          \<and> (\<forall>ps js. Errors verr = Some ps \<and> marshal_FieldErrors ps = Inr js \<longrightarrow>
                map marshal_FieldError_ptr ps = map Inr js
              \<and> sent (Context_respond c)
                  = sent c @ [WroteHeader 422, WroteBody (Doc (validation_body (JArray js)))])
          \<and> (\<forall>ps e. Errors verr = Some ps \<and> marshal_FieldErrors ps = Inl e \<longrightarrow>
                sent (Context_respond c) = sent c @ [WroteHeader 500])"
  proof
    assume e: "Context_Err c = Some (ErrValidation verr)"
    note r = Context_respond_ValidationError[OF assms e]
    have 1: "Errors verr = None \<longrightarrow>
                sent (Context_respond c)
                  = sent c @ [WroteHeader 422, WroteBody (Doc (validation_body JNull))]"
      using r(2)[of JNull] by (simp add: marshal_slice_def)
    have 2: "\<forall>ps js. Errors verr = Some ps \<and> marshal_FieldErrors ps = Inr js \<longrightarrow>
                map marshal_FieldError_ptr ps = map Inr js
              \<and> sent (Context_respond c)
                  = sent c @ [WroteHeader 422, WroteBody (Doc (validation_body (JArray js)))]"
    proof (intro allI impI)
      fix ps js assume a: "Errors verr = Some ps \<and> marshal_FieldErrors ps = Inr js"
      then have "marshal_slice (Errors verr) = Inr (JArray js)" by (simp add: marshal_slice_def)
      from r(2)[OF this] a
      show "map marshal_FieldError_ptr ps = map Inr js
              \<and> sent (Context_respond c)
                  = sent c @ [WroteHeader 422, WroteBody (Doc (validation_body (JArray js)))]"
        by (simp add: marshal_FieldErrors_map)
    qed
    have 3: "\<forall>ps e. Errors verr = Some ps \<and> marshal_FieldErrors ps = Inl e \<longrightarrow>
                sent (Context_respond c) = sent c @ [WroteHeader 500]"
    proof (intro allI impI)
      fix ps e assume a: "Errors verr = Some ps \<and> marshal_FieldErrors ps = Inl e"
      then have "marshal_slice (Errors verr) = Inl e" by (simp add: marshal_slice_def)
      from r(3)[OF this] show "sent (Context_respond c) = sent c @ [WroteHeader 500]" by simp
    qed
    from r(1) 1 2 3 show "Result (Context_respond c)
              = Some (RValidation 422 ''multi'' ''Validation error. See errors array for details.''
                        (Errors verr))
          \<and> (Errors verr = None \<longrightarrow>
                sent (Context_respond c)
                  = sent c @ [WroteHeader 422, WroteBody (Doc (validation_body JNull))])
          \<and> (\<forall>ps js. Errors verr = Some ps \<and> marshal_FieldErrors ps = Inr js \<longrightarrow>
                map marshal_FieldError_ptr ps = map Inr js
              \<and> sent (Context_respond c)
                  = sent c @ [WroteHeader 422, WroteBody (Doc (validation_body (JArray js)))])
          \<and> (\<forall>ps e. Errors verr = Some ps \<and> marshal_FieldErrors ps = Inl e \<longrightarrow>
                sent (Context_respond c) = sent c @ [WroteHeader 500])"
      by blast
  qed
  have B: "context_Err c = Some (ErrValidation verr) \<longrightarrow>
            (\<exists>c'. context_respond c = Inr c'
              \<and> Result c'
                  = Some (RValidation 422 ''multi'' ''Validation error. See errors array for details.''
                            (Errors verr))
              \<and> (Errors verr = None \<longrightarrow>
                    sent c' = sent c @ [WroteHeader 422, WroteBody (Doc (validation_body JNull))])
              \<and> (\<forall>ps js. Errors verr = Some ps \<and> marshal_FieldErrors ps = Inr js \<longrightarrow>
                    map marshal_FieldError_ptr ps = map Inr js
                  \<and> sent c'
                      = sent c @ [WroteHeader 422, WroteBody (Doc (validation_body (JArray js)))])
              \<and> (\<forall>ps e. Errors verr = Some ps \<and> marshal_FieldErrors ps = Inl e \<longrightarrow>
                    sent c' = sent c @ [WroteHeader 500]))"
  proof
    assume e: "context_Err c = Some (ErrValidation verr)"
    then have "errs c \<noteq> []" by (auto simp: context_Err_def)
    from context_respond_error[OF assms this]
    have eq: "context_respond c = Inr (Context_respond c)" .
    from e have ce: "Context_Err c = Some (ErrValidation verr)" by (simp add: context_Err_eq)
    note A' = mp[OF A ce]
    show "\<exists>c'. context_respond c = Inr c'
              \<and> Result c'
                  = Some (RValidation 422 ''multi'' ''Validation error. See errors array for details.''
                            (Errors verr))
              \<and> (Errors verr = None \<longrightarrow>
                    sent c' = sent c @ [WroteHeader 422, WroteBody (Doc (validation_body JNull))])
              \<and> (\<forall>ps js. Errors verr = Some ps \<and> marshal_FieldErrors ps = Inr js \<longrightarrow>
                    map marshal_FieldError_ptr ps = map Inr js
                  \<and> sent c'
                      = sent c @ [WroteHeader 422, WroteBody (Doc (validation_body (JArray js)))])
              \<and> (\<forall>ps e. Errors verr = Some ps \<and> marshal_FieldErrors ps = Inl e \<longrightarrow>
                    sent c' = sent c @ [WroteHeader 500])"
      by (rule exI[of _ "Context_respond c"]) (use A' eq in blast)
  qed
  from A B show ?thesis by (rule conjI)
qed

theorem ValidationError_response_witness:
  "\<exists>c. Context_Next (request [handler [OpSetResult (Some (RDyn (DInt 7)))]
          (Some (ErrValidation (AddError NewValidationError ''name'' ''required'')))]) = Some c
     \<and> \<not> written (w c)
     \<and> Context_Err c = Some (ErrValidation (AddError NewValidationError ''name'' ''required''))
     \<and> sent (Context_respond c)
         = [WroteHeader 422,
            WroteBody (Doc (JObject [(''statusCode'', JNumber 422), (''errorCode'', JString ''multi''),
              (''message'', JString ''Validation error. See errors array for details.''),
              (''errors'', JArray [JObject [(''key'', JString ''name''),
                                            (''errorCode'', JString ''required'')]])]))]"
proof -
  let ?v = "AddError NewValidationError ''name'' ''required''"
  let ?hs = "[handler [OpSetResult (Some (RDyn (DInt 7)))] (Some (ErrValidation ?v))]"
  let ?c = "(request ?hs)\<lparr>Result := Some (RDyn (DInt 7)), index := 1, errs := [ErrValidation ?v],
              trace := [EvCall 0, EvRet 0 (Some (ErrValidation ?v)) False]\<rparr>"
  have run: "Context_Next (request ?hs) = Some ?c"
    by (simp add: request_def handler_def Context_Next_def newContext_def run_handler_def
        Stop_def SetResult_def)
  have nw: "\<not> written (w ?c)" by (simp add: request_def newContext_def)
  have er: "Context_Err ?c = Some (ErrValidation ?v)" by (simp add: Context_Err_def)
  have s0: "sent ?c = []" by (simp add: sent_def request_def newContext_def rw0_def)
  let ?ps = "[Some \<lparr>FieldName = ''name'', ErrorCode = ''required'', FieldMessage = '''',
                     Data = None\<rparr>]"
  let ?js = "[JObject [(''key'', JString ''name''), (''errorCode'', JString ''required'')]]"
  have v: "Errors ?v = Some ?ps"
    by (simp add: AddError_def AddErrorDetailed_def NewValidationError_def)
  have m: "marshal_FieldErrors ?ps = Inr ?js"
    by (simp add: marshal_FieldError_ptr_def marshal_FieldError_def json_string_ascii)
  have "\<forall>ps js. Errors ?v = Some ps \<and> marshal_FieldErrors ps = Inr js \<longrightarrow>
                map marshal_FieldError_ptr ps = map Inr js
              \<and> sent (Context_respond ?c)
                  = sent ?c @ [WroteHeader 422, WroteBody (Doc (validation_body (JArray js)))]"
    using ValidationError_response[OF nw, of ?v] er by blast
  with v m s0 have "sent (Context_respond ?c)
      = [WroteHeader 422, WroteBody (Doc (validation_body (JArray ?js)))]"
    by (metis append_Nil)
  then have "sent (Context_respond ?c)
         = [WroteHeader 422,
            WroteBody (Doc (JObject [(''statusCode'', JNumber 422), (''errorCode'', JString ''multi''),
              (''message'', JString ''Validation error. See errors array for details.''),
              (''errors'', JArray ?js)]))]"
    by (simp add: validation_body_def)
  with run nw er show ?thesis by blast
qed

theorem ValidationError_response_counterexample:
  "map_option (sent \<circ> Context_respond)
     (Context_Next (request [handler [] (Some (ErrValidation (AddErrorDetailed NewValidationError
        ''age'' ''value-too-high'' (Some DFunc) '''')))]))
     = Some [WroteHeader 500]
   \<and> map_option (map_sum id sent \<circ> context_respond)
     (context_Next (request [handler [] (Some (ErrValidation (AddErrorDetailed NewValidationError
        ''age'' ''value-too-high'' (Some DFunc) '''')))]))
     = Some (Inr [WroteHeader 500])
   \<and> map_option (sent \<circ> Context_respond)
     (Context_Next (request [handler [OpWrite ''partial'']
        (Some (ErrValidation (AddError NewValidationError ''name'' ''required'')))]))
     = Some [WroteBody (Raw ''partial'')]
   \<and> map_option (map_sum id sent \<circ> context_respond)
     (context_Next (request [handler [OpWrite ''partial'']
        (Some (ErrValidation (AddError NewValidationError ''name'' ''required'')))]))
     = Some (Inr [WroteBody (Raw ''partial'')])
   \<and> map_option (sent \<circ> Context_respond)
     (Context_Next (request [handler [] (Some (ErrValidation (ValidationError None)))]))
     = Some [WroteHeader 422,
             WroteBody (Doc (JObject [(''statusCode'', JNumber 422),
               (''errorCode'', JString ''multi''),
               (''message'', JString ''Validation error. See errors array for details.''),
               (''errors'', JNull)]))]"
  by (simp add: request_def handler_def Context_Next_def context_Next_def newContext_def
      context_do_def run_handler_def Stop_def rw0_def marshal_FieldError_def
      marshal_FieldError_ptr_def marshal_slice_def AddError_def AddErrorDetailed_def
      NewValidationError_def json_string_ascii
      Context_respond_def context_respond_def Context_Err_def context_Err_def respond_simps)

text \<open>
  Claim C5, as amended. When no handler wrote to the response and \<open>Err()\<close> is a status error, the
  policy writes the status code that the error carries; it writes the error object as JSON body
  when the error's message is not empty, and no body when it is empty. So the not-found singleton
  gives status 404 and no body.
\<close>

theorem StatusError_response:
  assumes "\<not> written (w c)"
  shows "(Context_Err c = Some (ErrAPI e) \<longrightarrow>
            sent (Context_respond c) = sent c @
              (if Message e \<noteq> ''''
               then [WroteHeader (StatusCode e), WroteBody (Doc (marshal_Error e))]
               else [WroteHeader (StatusCode e)]))
       \<and> (context_Err c = Some (ErrAPI e) \<longrightarrow>
            (\<exists>c'. context_respond c = Inr c' \<and> sent c' = sent c @
              (if Message e \<noteq> ''''
               then [WroteHeader (StatusCode e), WroteBody (Doc (marshal_Error e))]
               else [WroteHeader (StatusCode e)])))
       \<and> (Context_Err c = Some (ErrAPI ErrNotFound) \<longrightarrow>
            sent (Context_respond c) = sent c @ [WroteHeader 404])
       \<and> (context_Err c = Some (ErrAPI ErrNotFound) \<longrightarrow>
            (\<exists>c'. context_respond c = Inr c' \<and> sent c' = sent c @ [WroteHeader 404]))"
  using assms Context_respond_StatusError[of c] context_respond_StatusError[of c]
  by (auto simp: ErrNotFound_def NewError_def StatusNotFound_def)

theorem StatusError_response_witness:
  "\<exists>c c'. context_Next (request [handler [] (Some (ErrAPI ErrNotFound))]) = Some c
       \<and> \<not> written (w c) \<and> context_Err c = Some (ErrAPI ErrNotFound)
       \<and> context_respond c = Inr c' \<and> sent c' = [WroteHeader 404]"
proof -
  let ?hs = "[handler [] (Some (ErrAPI ErrNotFound))]"
  let ?c = "(request ?hs)\<lparr>index := 1, errs := [ErrAPI ErrNotFound],
              trace := [EvCall 0, EvRet 0 (Some (ErrAPI ErrNotFound)) False]\<rparr>"
  have run: "context_Next (request ?hs) = Some ?c"
    by (simp add: request_def handler_def context_Next_def newContext_def context_do_def
        run_handler_def Stop_def)
  have nw: "\<not> written (w ?c)" by (simp add: request_def newContext_def)
  have er: "context_Err ?c = Some (ErrAPI ErrNotFound)" by (simp add: context_Err_def)
  have s0: "sent ?c = []" by (simp add: sent_def request_def newContext_def rw0_def)
  have "context_Err ?c = Some (ErrAPI ErrNotFound) \<longrightarrow>
            (\<exists>c'. context_respond ?c = Inr c' \<and> sent c' = sent ?c @ [WroteHeader 404])"
    using StatusError_response[OF nw, of ErrNotFound] by (elim conjE)
  with er s0 obtain c' where "context_respond ?c = Inr c'" "sent c' = [WroteHeader 404]"
    by auto
  with run nw er show ?thesis by blast
qed

theorem StatusError_response_counterexample:
  "map_option Context_Err
     (Context_Next (request [handler [OpWrite ''partial''] (Some (ErrAPI ErrNotFound))]))
     = Some (Some (ErrAPI ErrNotFound))
   \<and> map_option (sent \<circ> Context_respond)
     (Context_Next (request [handler [OpWrite ''partial''] (Some (ErrAPI ErrNotFound))]))
     = Some [WroteBody (Raw ''partial'')]
   \<and> map_option context_Err
     (context_Next (request [handler [OpWrite ''partial''] (Some (ErrAPI ErrNotFound))]))
     = Some (Some (ErrAPI ErrNotFound))
   \<and> map_option (map_sum id sent \<circ> context_respond)
     (context_Next (request [handler [OpWrite ''partial''] (Some (ErrAPI ErrNotFound))]))
     = Some (Inr [WroteBody (Raw ''partial'')])"
  by (simp add: request_def handler_def Context_Next_def context_Next_def newContext_def
      context_do_def run_handler_def Stop_def rw0_def
      Context_respond_def context_respond_def Context_Err_def context_Err_def respond_simps)












section \<open>Registration and dispatch\<close>

lemma no_CreateContext_panics:
  "no_CreateContext this \<Longrightarrow>
   Router_createContext this rq = Inl (Panic ''No CreateContext func is set'')"
  by (induction this rule: no_CreateContext.induct) (auto split: option.splits)

lemma some_CreateContext_returns:
  "\<not> no_CreateContext this \<Longrightarrow> \<exists>pc. Router_createContext this rq = Inr pc"
  by (induction this rule: no_CreateContext.induct) (auto split: option.splits)

text \<open>
  Claim C9, as amended. Registering a route does not look at the context-construction hook: on a
  router that reaches a URL router through its ancestors, and with a path that the URL router
  accepts, \<open>route\<close> returns after adding one entry to the table, whether or not a hook is
  configured. The hook is looked up when the registered handle is called for a request: with no
  hook on the router or any of its ancestors every such call panics with "No CreateContext func
  is set", before any handler runs; with a hook the call runs the chain and responds.
\<close>

theorem route_without_CreateContext:
  assumes "Router_router this = Inr hr" and "path this @ pth = CHR ''/'' # rest"
  shows "\<exists>h. Router_route this method pth hs = Inr (hr @ [(method, path this @ pth, h)])
           \<and> (no_CreateContext this \<longrightarrow>
                (\<forall>rw rq ps. h rw rq ps = Some (Inl (Panic ''No CreateContext func is set''))))
           \<and> (\<not> no_CreateContext this \<longrightarrow>
                (\<forall>rw rq ps. \<exists>c. h rw rq ps = Some (Inr c) \<and> written (w c)))"
proof -
  let ?h = "wrap (Router_createContext this) (Router_middleware this @ hs)"
  have reg: "Router_route this method pth hs = Inr (hr @ [(method, path this @ pth, ?h)])"
    using assms by (simp add: Router_route_def httprouter_Handle_def)
  have nohook: "no_CreateContext this \<longrightarrow>
      (\<forall>rw rq ps. ?h rw rq ps = Some (Inl (Panic ''No CreateContext func is set'')))"
    by (simp add: wrap_def no_CreateContext_panics)
  have hook: "\<not> no_CreateContext this \<longrightarrow> (\<forall>rw rq ps. \<exists>c. ?h rw rq ps = Some (Inr c) \<and> written (w c))"
  proof (intro impI allI)
    fix rw rq ps assume "\<not> no_CreateContext this"
    from some_CreateContext_returns[OF this, of rq] obtain pc where
      pc: "Router_createContext this rq = Inr pc" by blast
    from Context_Next_reaches[of pc rq rw ps "Router_middleware this @ hs"] obtain c where
      c: "Context_Next (newContext pc rq rw ps (Router_middleware this @ hs)) = Some c" by blast
    have "written (w (Context_respond c))"
      by (auto simp: Context_respond_def respond_simps
          split: option.splits sum.splits err.splits prod.splits)
    with pc c show "\<exists>c. ?h rw rq ps = Some (Inr c) \<and> written (w c)"
      by (simp add: wrap_def)
  qed
  from reg nohook hook show ?thesis by blast
qed

theorem route_without_CreateContext_witness:
  "no_CreateContext (SubRouter (Router None None (Some []) '''' []) ''/api'')
   \<and> (case Router_route (SubRouter (Router None None (Some []) '''' []) ''/api'')
              ''GET'' ''/ping'' [handler [] None] of
        Inl pn \<Rightarrow> False
      | Inr hr \<Rightarrow> map (\<lambda>(m, pth, h). (m, pth, h rw0 req0 [])) hr
                    = [(''GET'', ''/api/ping'', Some (Inl (Panic ''No CreateContext func is set'')))])"
proof -
  let ?r = "SubRouter (Router None None (Some []) '''' []) ''/api''"
  have n: "no_CreateContext ?r" by (simp add: SubRouter_def)
  have a: "Router_router ?r = Inr []" by (simp add: SubRouter_def)
  have b: "path ?r @ ''/ping'' = CHR ''/'' # ''api/ping''" by (simp add: SubRouter_def)
  from route_without_CreateContext[OF a b, of "''GET''" "[handler [] None]"] n
  obtain h where "Router_route ?r ''GET'' ''/ping'' [handler [] None]
        = Inr ([] @ [(''GET'', path ?r @ ''/ping'', h)])"
    and "\<forall>rw rq ps. h rw rq ps = Some (Inl (Panic ''No CreateContext func is set''))"
    by blast
  with n show ?thesis by (simp add: SubRouter_def)
qed

theorem route_without_CreateContext_counterexample:
  "no_CreateContext (Router None None (Some []) '''' [])
   \<and> (case Router_route (Router None None (Some []) '''' []) ''GET'' ''/ping''
              [handler [OpSetResult (Some (RDyn (DBool True)))] None] of
        Inl pn \<Rightarrow> False
      | Inr hr \<Rightarrow> map (\<lambda>(m, pth, h). (m, pth, h rw0 req0 [])) hr
                    = [(''GET'', ''/ping'', Some (Inl (Panic ''No CreateContext func is set'')))])"
  by (simp add: Router_route_def httprouter_Handle_def wrap_def)

end
